theory Spec2Isabelle
  imports Main "HOL-Library.List_Lexorder" "HOL-Library.Char_ord" "HOL-Library.Product_Lexorder"
begin

section \<open>Write batch with index: data model\<close>

text \<open>
  The development embeds \<^verbatim>\<open>utilities/write_batch_with_index/write_batch_with_index.cc\<close>.
  Slices are byte strings (\<^typ>\<open>string\<close>); the comparator is the default bytewise one,
  which is the lexicographic order on \<^typ>\<open>string\<close>.  The embedding is of the release build:
  an \<^verbatim>\<open>assert\<close> is compiled out, and the statement after it runs.
\<close>

datatype Status = OK | NotFound | Corruption | NotSupported | InvalidArgument
  | MergeInProgress | MemoryLimit

datatype WriteType = kPutRecord | kMergeRecord | kDeleteRecord | kSingleDeleteRecord
  | kDeleteRangeRecord | kLogDataRecord | kXIDRecord

record WriteEntry =
  entry_type :: WriteType
  entry_key :: string
  entry_value :: string

text \<open>
  Modelled from the spec: \<^verbatim>\<open>Comparator::Compare\<close> of the column's user comparator
  (rocksdb/comparator.h, not part of this file); the default comparator is
  byte-lexicographic.
\<close>

definition Compare :: "string \<Rightarrow> string \<Rightarrow> int" where
  "Compare a b = (if a < b then - 1 else if a = b then 0 else 1)"

text \<open>
  Modelled from the spec: \<^verbatim>\<open>Comparator::Equal\<close> of the same comparator.
\<close>

definition Equal :: "string \<Rightarrow> string \<Rightarrow> bool" where
  "Equal a b = (a = b)"

section \<open>Iterators over ordered sequences\<close>

text \<open>
  Modelled from the spec: the iterator contract (\<^verbatim>\<open>seek\<close> is the first entry not below
  the target, \<^verbatim>\<open>seek_for_prev\<close> the last entry not above it, \<^verbatim>\<open>first\<close>, \<^verbatim>\<open>last\<close>,
  \<^verbatim>\<open>next\<close>, \<^verbatim>\<open>prev\<close>, \<^verbatim>\<open>valid\<close>); the store's iterator and the two index
  implementations (skip list, threaded red-black tree) are not part of this file.
  \<^verbatim>\<open>BaseDeltaIterator\<close> is written against two abstract iterators: \<^verbatim>\<open>Iterator\<close> (the base,
  supplied by the store) and \<^verbatim>\<open>WBWIIterator\<close> (the delta, the batch's view of one column
  family).  Both are modelled as a cursor into the ordered sequence they iterate: a position
  \<open>p\<close> is valid iff \<open>p < length xs\<close>, and every invalid position is written \<open>length xs\<close>,
  as the threaded red-black tree index does with \<^verbatim>\<open>end_i()\<close>.  \<^verbatim>\<open>Next\<close> and \<^verbatim>\<open>Prev\<close> require a
  valid iterator; on an invalid one the model leaves the cursor where it is.
\<close>

definition it_valid :: "'a list \<Rightarrow> nat \<Rightarrow> bool" where
  "it_valid xs p = (p < length xs)"

definition it_seek_to_first :: "'a list \<Rightarrow> nat" where
  "it_seek_to_first xs = 0"

definition it_seek_to_last :: "'a list \<Rightarrow> nat" where
  "it_seek_to_last xs = (if xs = [] then 0 else length xs - 1)"

definition it_seek :: "('a \<Rightarrow> string) \<Rightarrow> 'a list \<Rightarrow> string \<Rightarrow> nat" where
  "it_seek kf xs k = length (takeWhile (\<lambda>e. kf e < k) xs)"

definition it_seek_for_prev :: "('a \<Rightarrow> string) \<Rightarrow> 'a list \<Rightarrow> string \<Rightarrow> nat" where
  "it_seek_for_prev kf xs k =
     (let c = length (takeWhile (\<lambda>e. kf e \<le> k) xs)
      in if c = 0 then length xs else c - 1)"

definition it_next :: "'a list \<Rightarrow> nat \<Rightarrow> nat" where
  "it_next xs p = (if p < length xs then Suc p else p)"

definition it_prev :: "'a list \<Rightarrow> nat \<Rightarrow> nat" where
  "it_prev xs p = (if p < length xs then (if p = 0 then length xs else p - 1) else p)"

section \<open>BaseDeltaIterator\<close>

record BaseDeltaIterator =
  forward :: bool
  current_at_base :: bool
  equal_keys :: bool
  status :: Status
  base_items :: "(string \<times> string) list"
  base_pos :: nat
  delta_items :: "WriteEntry list"
  delta_pos :: nat

definition BaseValid :: "BaseDeltaIterator \<Rightarrow> bool" where
  "BaseValid it = it_valid (base_items it) (base_pos it)"

definition DeltaValid :: "BaseDeltaIterator \<Rightarrow> bool" where
  "DeltaValid it = it_valid (delta_items it) (delta_pos it)"

definition Valid :: "BaseDeltaIterator \<Rightarrow> bool" where
  "Valid it = (if current_at_base it then BaseValid it else DeltaValid it)"

definition base_key :: "BaseDeltaIterator \<Rightarrow> string" where
  "base_key it = fst (base_items it ! base_pos it)"

definition base_value :: "BaseDeltaIterator \<Rightarrow> string" where
  "base_value it = snd (base_items it ! base_pos it)"

definition delta_Entry :: "BaseDeltaIterator \<Rightarrow> WriteEntry" where
  "delta_Entry it = delta_items it ! delta_pos it"

definition AdvanceDelta :: "BaseDeltaIterator \<Rightarrow> BaseDeltaIterator" where
  "AdvanceDelta it =
     (if forward it then it\<lparr>delta_pos := it_next (delta_items it) (delta_pos it)\<rparr>
      else it\<lparr>delta_pos := it_prev (delta_items it) (delta_pos it)\<rparr>)"

definition AdvanceBase :: "BaseDeltaIterator \<Rightarrow> BaseDeltaIterator" where
  "AdvanceBase it =
     (if forward it then it\<lparr>base_pos := it_next (base_items it) (base_pos it)\<rparr>
      else it\<lparr>base_pos := it_prev (base_items it) (base_pos it)\<rparr>)"

definition is_delete :: "WriteEntry \<Rightarrow> bool" where
  "is_delete e = (entry_type e = kDeleteRecord \<or> entry_type e = kSingleDeleteRecord)"

function UpdateCurrent :: "BaseDeltaIterator \<Rightarrow> BaseDeltaIterator" where
  "UpdateCurrent it0 =
     (let it = it0\<lparr>equal_keys := False\<rparr> in
      if \<not> BaseValid it then
        (if \<not> DeltaValid it then it
         else if is_delete (delta_Entry it) then UpdateCurrent (AdvanceDelta it)
         else it\<lparr>current_at_base := False\<rparr>)
      else if \<not> DeltaValid it then it\<lparr>current_at_base := True\<rparr>
      else
        (let compare = (if forward it then 1 else - 1) *
                       Compare (entry_key (delta_Entry it)) (base_key it) in
         if compare \<le> 0 then
           (let it1 = (if compare = 0 then it\<lparr>equal_keys := True\<rparr> else it) in
            if \<not> is_delete (delta_Entry it) then it1\<lparr>current_at_base := False\<rparr>
            else
              (let it2 = AdvanceDelta it1 in
               UpdateCurrent (if equal_keys it1 then AdvanceBase it2 else it2)))
         else it\<lparr>current_at_base := True\<rparr>))"
  by pat_completeness auto
termination
  by (relation "measure (\<lambda>it. if DeltaValid it
        then (if forward it then length (delta_items it) - delta_pos it else Suc (delta_pos it))
        else 0)")
     (auto simp: DeltaValid_def BaseValid_def it_valid_def AdvanceDelta_def AdvanceBase_def
        it_next_def it_prev_def Let_def split: if_splits)

definition Advance :: "BaseDeltaIterator \<Rightarrow> BaseDeltaIterator" where
  "Advance it =
     UpdateCurrent
       (if equal_keys it then AdvanceDelta (AdvanceBase it)
        else if current_at_base it then AdvanceBase it
        else AdvanceDelta it)"

definition SeekToFirst :: "BaseDeltaIterator \<Rightarrow> BaseDeltaIterator" where
  "SeekToFirst it =
     UpdateCurrent (it\<lparr>forward := True,
        base_pos := it_seek_to_first (base_items it),
        delta_pos := it_seek_to_first (delta_items it)\<rparr>)"

definition SeekToLast :: "BaseDeltaIterator \<Rightarrow> BaseDeltaIterator" where
  "SeekToLast it =
     UpdateCurrent (it\<lparr>forward := False,
        base_pos := it_seek_to_last (base_items it),
        delta_pos := it_seek_to_last (delta_items it)\<rparr>)"

definition Seek :: "string \<Rightarrow> BaseDeltaIterator \<Rightarrow> BaseDeltaIterator" where
  "Seek k it =
     UpdateCurrent (it\<lparr>forward := True,
        base_pos := it_seek fst (base_items it) k,
        delta_pos := it_seek entry_key (delta_items it) k\<rparr>)"

definition SeekForPrev :: "string \<Rightarrow> BaseDeltaIterator \<Rightarrow> BaseDeltaIterator" where
  "SeekForPrev k it =
     UpdateCurrent (it\<lparr>forward := False,
        base_pos := it_seek_for_prev fst (base_items it) k,
        delta_pos := it_seek_for_prev entry_key (delta_items it) k\<rparr>)"

definition Next :: "BaseDeltaIterator \<Rightarrow> BaseDeltaIterator" where
  "Next it0 =
     (let it1 = (if \<not> Valid it0 then it0\<lparr>status := NotSupported\<rparr> else it0);
          it4 =
            (if \<not> forward it1 then
               (let it2 = it1\<lparr>forward := True, equal_keys := False\<rparr>;
                    it3 =
                      (if \<not> BaseValid it2
                         then it2\<lparr>base_pos := it_seek_to_first (base_items it2)\<rparr>
                       else if \<not> DeltaValid it2
                         then it2\<lparr>delta_pos := it_seek_to_first (delta_items it2)\<rparr>
                       else if current_at_base it2 then AdvanceDelta it2
                       else AdvanceBase it2)
                in if DeltaValid it3 \<and> BaseValid it3
                      \<and> Equal (entry_key (delta_Entry it3)) (base_key it3)
                   then it3\<lparr>equal_keys := True\<rparr> else it3)
             else it1)
      in Advance it4)"

definition Prev :: "BaseDeltaIterator \<Rightarrow> BaseDeltaIterator" where
  "Prev it0 =
     (let it1 = (if \<not> Valid it0 then it0\<lparr>status := NotSupported\<rparr> else it0);
          it4 =
            (if forward it1 then
               (let it2 = it1\<lparr>forward := False, equal_keys := False\<rparr>;
                    it3 =
                      (if \<not> BaseValid it2
                         then it2\<lparr>base_pos := it_seek_to_last (base_items it2)\<rparr>
                       else if \<not> DeltaValid it2
                         then it2\<lparr>delta_pos := it_seek_to_last (delta_items it2)\<rparr>
                       else if current_at_base it2 then AdvanceDelta it2
                       else AdvanceBase it2)
                in if DeltaValid it3 \<and> BaseValid it3
                      \<and> Equal (entry_key (delta_Entry it3)) (base_key it3)
                   then it3\<lparr>equal_keys := True\<rparr> else it3)
             else it1)
      in Advance it4)"

definition key :: "BaseDeltaIterator \<Rightarrow> string" where
  "key it = (if current_at_base it then base_key it else entry_key (delta_Entry it))"

definition val :: "BaseDeltaIterator \<Rightarrow> string" where
  "val it = (if current_at_base it then base_value it else entry_value (delta_Entry it))"

section \<open>The write batch (record log)\<close>

text \<open>
  Modelled from the spec: the record log (\<^verbatim>\<open>WriteBatch\<close>, \<^verbatim>\<open>ReadableWriteBatch\<close> and
  \<^verbatim>\<open>WriteBatchInternal\<close> are not part of this file).  The log is a fixed header holding the
  record count, followed by tagged records; a record is addressed by the byte offset at which
  it starts.  The model keeps the log as the sequence of its records.  A column-family variant
  of a tag is the same constructor with a non-zero column family id.  The byte length of a
  record follows the wire format of the store (one tag byte, the column family id as a varint
  when it is not 0, then each slice with its varint length); the proofs use of it only that it
  is positive.  Reading at an offset at which no record starts yields no record.
\<close>

datatype ValueType = kTypeDeletion | kTypeValue | kTypeMerge | kTypeLogData
  | kTypeSingleDeletion | kTypeRangeDeletion | kTypeBeginPrepareXID | kTypeEndPrepareXID
  | kTypeCommitXID | kTypeRollbackXID | kTypeNoop

record LogRecord =
  rec_tag :: ValueType
  rec_cf :: nat
  rec_key :: string
  rec_value :: string

text \<open>
  Modelled from the spec: the length of a varint32 in the wire format of the store.
\<close>

function varint_length :: "nat \<Rightarrow> nat" where
  "varint_length n = (if n < 128 then 1 else Suc (varint_length (n div 128)))"
  by pat_completeness auto
termination
  by (relation "measure id") auto

text \<open>
  Modelled from the spec: the encoded length of a length-prefixed slice.
\<close>

definition slice_length :: "string \<Rightarrow> nat" where
  "slice_length s = varint_length (length s) + length s"

text \<open>
  Modelled from the spec: the byte length of an encoded record (tag, column family id, key, value).
\<close>

definition EncodedSize :: "LogRecord \<Rightarrow> nat" where
  "EncodedSize r =
     1 + (if rec_cf r = 0 then 0 else varint_length (rec_cf r)) +
     (case rec_tag r of
        kTypeValue \<Rightarrow> slice_length (rec_key r) + slice_length (rec_value r)
      | kTypeMerge \<Rightarrow> slice_length (rec_key r) + slice_length (rec_value r)
      | kTypeRangeDeletion \<Rightarrow> slice_length (rec_key r) + slice_length (rec_value r)
      | kTypeDeletion \<Rightarrow> slice_length (rec_key r)
      | kTypeSingleDeletion \<Rightarrow> slice_length (rec_key r)
      | kTypeLogData \<Rightarrow> slice_length (rec_value r)
      | kTypeEndPrepareXID \<Rightarrow> slice_length (rec_key r)
      | kTypeCommitXID \<Rightarrow> slice_length (rec_key r)
      | kTypeRollbackXID \<Rightarrow> slice_length (rec_key r)
      | kTypeBeginPrepareXID \<Rightarrow> 0
      | kTypeNoop \<Rightarrow> 0)"

record WriteBatch =
  wb_records :: "LogRecord list"
  wb_count :: nat
  wb_save_points :: "(nat \<times> nat) list"
  wb_max_bytes :: nat

text \<open>
  Modelled from the spec: \<^verbatim>\<open>WriteBatchInternal::kHeader\<close>, the size of the fixed header (8-byte sequence
  number, 4-byte count).
\<close>

definition kHeader :: nat where
  "kHeader = 12"

text \<open>
  Modelled from the spec: the records of the log with the byte offsets at which they start, as
  \<^verbatim>\<open>ReadRecordFromWriteBatch\<close> walks them.
\<close>

fun located :: "nat \<Rightarrow> LogRecord list \<Rightarrow> (nat \<times> LogRecord) list" where
  "located off [] = []"
| "located off (r # rs) = (off, r) # located (off + EncodedSize r) rs"

text \<open>
  Modelled from the spec: \<^verbatim>\<open>WriteBatch::GetDataSize\<close>, the current size of the log in bytes.
\<close>

definition GetDataSize :: "WriteBatch \<Rightarrow> nat" where
  "GetDataSize wb = kHeader + sum_list (map EncodedSize (wb_records wb))"

text \<open>
  Modelled from the spec: \<^verbatim>\<open>WriteBatchInternal::GetFirstOffset\<close>, the offset of the first record.
\<close>

definition GetFirstOffset :: "WriteBatch \<Rightarrow> nat" where
  "GetFirstOffset wb = kHeader"

text \<open>
  Modelled from the spec: \<^verbatim>\<open>read_record\<close> at a byte offset; no record when none starts there.
\<close>

definition record_at :: "WriteBatch \<Rightarrow> nat \<Rightarrow> LogRecord option" where
  "record_at wb off = map_of (located kHeader (wb_records wb)) off"

text \<open>
  Modelled from the spec: \<^verbatim>\<open>append_record\<close>; a mutation that would exceed \<^verbatim>\<open>max_bytes\<close> returns
  \<^verbatim>\<open>MemoryLimit\<close> and leaves the log as it was.  Key-bearing records are counted in the header.
\<close>

definition wb_append :: "WriteBatch \<Rightarrow> LogRecord \<Rightarrow> bool \<Rightarrow> Status \<times> WriteBatch" where
  "wb_append wb r counted =
     (if wb_max_bytes wb \<noteq> 0 \<and> GetDataSize wb + EncodedSize r > wb_max_bytes wb
      then (MemoryLimit, wb)
      else (OK, wb\<lparr>wb_records := wb_records wb @ [r],
                    wb_count := wb_count wb + (if counted then 1 else 0)\<rparr>))"

text \<open>
  Modelled from the spec: \<^verbatim>\<open>WriteBatch::Put\<close>.
\<close>

definition wb_Put :: "WriteBatch \<Rightarrow> nat \<Rightarrow> string \<Rightarrow> string \<Rightarrow> Status \<times> WriteBatch" where
  "wb_Put wb cf k v = wb_append wb \<lparr>rec_tag = kTypeValue, rec_cf = cf, rec_key = k, rec_value = v\<rparr> True"

text \<open>
  Modelled from the spec: \<^verbatim>\<open>WriteBatch::Delete\<close>.
\<close>

definition wb_Delete :: "WriteBatch \<Rightarrow> nat \<Rightarrow> string \<Rightarrow> Status \<times> WriteBatch" where
  "wb_Delete wb cf k = wb_append wb \<lparr>rec_tag = kTypeDeletion, rec_cf = cf, rec_key = k, rec_value = []\<rparr> True"

text \<open>
  Modelled from the spec: \<^verbatim>\<open>WriteBatch::SingleDelete\<close>.
\<close>

definition wb_SingleDelete :: "WriteBatch \<Rightarrow> nat \<Rightarrow> string \<Rightarrow> Status \<times> WriteBatch" where
  "wb_SingleDelete wb cf k =
     wb_append wb \<lparr>rec_tag = kTypeSingleDeletion, rec_cf = cf, rec_key = k, rec_value = []\<rparr> True"

text \<open>
  Modelled from the spec: \<^verbatim>\<open>WriteBatch::DeleteRange\<close>; the end key is the record's value.
\<close>

definition wb_DeleteRange :: "WriteBatch \<Rightarrow> nat \<Rightarrow> string \<Rightarrow> string \<Rightarrow> Status \<times> WriteBatch" where
  "wb_DeleteRange wb cf b e =
     wb_append wb \<lparr>rec_tag = kTypeRangeDeletion, rec_cf = cf, rec_key = b, rec_value = e\<rparr> True"

text \<open>
  Modelled from the spec: \<^verbatim>\<open>WriteBatch::Merge\<close>.
\<close>

definition wb_Merge :: "WriteBatch \<Rightarrow> nat \<Rightarrow> string \<Rightarrow> string \<Rightarrow> Status \<times> WriteBatch" where
  "wb_Merge wb cf k v = wb_append wb \<lparr>rec_tag = kTypeMerge, rec_cf = cf, rec_key = k, rec_value = v\<rparr> True"

text \<open>
  Modelled from the spec: \<^verbatim>\<open>WriteBatch::PutLogData\<close>; the blob is not counted as a record.
\<close>

definition wb_PutLogData :: "WriteBatch \<Rightarrow> string \<Rightarrow> Status \<times> WriteBatch" where
  "wb_PutLogData wb blob =
     wb_append wb \<lparr>rec_tag = kTypeLogData, rec_cf = 0, rec_key = [], rec_value = blob\<rparr> False"

text \<open>
  Modelled from the spec: \<^verbatim>\<open>WriteBatch::Clear\<close>.
\<close>

definition wb_Clear :: "WriteBatch \<Rightarrow> WriteBatch" where
  "wb_Clear wb = wb\<lparr>wb_records := [], wb_count := 0, wb_save_points := []\<rparr>"

text \<open>
  Modelled from the spec: \<^verbatim>\<open>set_save_point\<close>, a snapshot of the log size (and record count).
\<close>

definition wb_SetSavePoint :: "WriteBatch \<Rightarrow> WriteBatch" where
  "wb_SetSavePoint wb = wb\<lparr>wb_save_points := (GetDataSize wb, wb_count wb) # wb_save_points wb\<rparr>"

text \<open>
  Modelled from the spec: \<^verbatim>\<open>truncate(n)\<close>, the records that end within the first \<open>n\<close> bytes.
\<close>

fun take_bytes :: "nat \<Rightarrow> nat \<Rightarrow> LogRecord list \<Rightarrow> LogRecord list" where
  "take_bytes off sz [] = []"
| "take_bytes off sz (r # rs) =
     (if off + EncodedSize r \<le> sz then r # take_bytes (off + EncodedSize r) sz rs else [])"

text \<open>
  Modelled from the spec: \<^verbatim>\<open>rollback_to_save_point\<close> of the log: pops the latest save point and
  truncates the log to it; \<^verbatim>\<open>NotFound\<close> when there is none.
\<close>

definition wb_RollbackToSavePoint :: "WriteBatch \<Rightarrow> Status \<times> WriteBatch" where
  "wb_RollbackToSavePoint wb =
     (case wb_save_points wb of
        [] \<Rightarrow> (NotFound, wb)
      | (sz, c) # rest \<Rightarrow>
          (OK, wb\<lparr>wb_save_points := rest,
                  wb_records := take_bytes kHeader sz (wb_records wb),
                  wb_count := c\<rparr>))"

text \<open>
  Modelled from the spec: \<^verbatim>\<open>pop_save_point\<close> of the log.
\<close>

definition wb_PopSavePoint :: "WriteBatch \<Rightarrow> Status \<times> WriteBatch" where
  "wb_PopSavePoint wb =
     (case wb_save_points wb of
        [] \<Rightarrow> (NotFound, wb)
      | p # rest \<Rightarrow> (OK, wb\<lparr>wb_save_points := rest\<rparr>))"

text \<open>
  Modelled from the spec: the record view's tag for a log tag (\<^verbatim>\<open>GetEntryFromDataOffset\<close>).
\<close>

definition write_type :: "ValueType \<Rightarrow> WriteType" where
  "write_type t =
     (case t of
        kTypeValue \<Rightarrow> kPutRecord
      | kTypeDeletion \<Rightarrow> kDeleteRecord
      | kTypeSingleDeletion \<Rightarrow> kSingleDeleteRecord
      | kTypeRangeDeletion \<Rightarrow> kDeleteRangeRecord
      | kTypeMerge \<Rightarrow> kMergeRecord
      | kTypeLogData \<Rightarrow> kLogDataRecord
      | _ \<Rightarrow> kXIDRecord)"

text \<open>
  Modelled from the spec: \<^verbatim>\<open>ReadableWriteBatch::GetEntryFromDataOffset\<close>, the decoded record
  \<open>{tag, key, value}\<close> at an offset.
\<close>

definition GetEntryFromDataOffset :: "WriteBatch \<Rightarrow> nat \<Rightarrow> WriteEntry option" where
  "GetEntryFromDataOffset wb off =
     (case record_at wb off of
        None \<Rightarrow> None
      | Some r \<Rightarrow> Some \<lparr>entry_type = write_type (rec_tag r), entry_key = rec_key r,
                         entry_value = rec_value r\<rparr>)"

text \<open>
  Modelled from the spec: \<^verbatim>\<open>read_key_from_record\<close>.
\<close>

definition ReadKeyFromWriteBatchEntry :: "WriteBatch \<Rightarrow> nat \<Rightarrow> string option" where
  "ReadKeyFromWriteBatchEntry wb off = map_option rec_key (record_at wb off)"

section \<open>The ordered index\<close>

text \<open>
  Modelled from the spec: \<^verbatim>\<open>IndexEntry\<close> (\<^verbatim>\<open>WriteBatchIndexEntry\<close> is declared outside this file).  The
  key slice \<open>(key_offset, key_length)\<close> into the log is kept as the key it denotes; the log
  offset is the field that overwrite mode updates in place.
\<close>

record WriteBatchIndexEntry =
  offset :: nat
  column_family :: nat
  ie_key :: string

text \<open>
  Modelled from the spec: the search probes, \<open>(SentinelMin, column_id)\<close> and
  \<open>(Normal, column_id, key)\<close>.
\<close>

datatype SearchEntry = MinInCf nat | KeyInCf nat string

text \<open>
  Modelled from the spec: \<^verbatim>\<open>EntryComparator\<close>: order by column id, then by user key; the minimum
  sentinel is below every key of its column.  \<open>entry_before e p\<close> is \<open>e < p\<close>.
\<close>

definition entry_before :: "WriteBatchIndexEntry \<Rightarrow> SearchEntry \<Rightarrow> bool" where
  "entry_before e p =
     (case p of
        MinInCf c \<Rightarrow> column_family e < c
      | KeyInCf c k \<Rightarrow> column_family e < c \<or> (column_family e = c \<and> ie_key e < k))"

text \<open>
  Modelled from the spec: \<^verbatim>\<open>EntryComparator\<close>, \<open>e \<le> p\<close>.
\<close>

definition entry_not_after :: "WriteBatchIndexEntry \<Rightarrow> SearchEntry \<Rightarrow> bool" where
  "entry_not_after e p =
     (case p of
        MinInCf c \<Rightarrow> column_family e < c
      | KeyInCf c k \<Rightarrow> column_family e < c \<or> (column_family e = c \<and> ie_key e \<le> k))"

text \<open>
  Modelled from the spec: \<^verbatim>\<open>OrderedIndex\<close> \<^verbatim>\<open>seek(probe)\<close>, the first entry not below the probe.
\<close>

definition index_Seek :: "WriteBatchIndexEntry list \<Rightarrow> SearchEntry \<Rightarrow> nat" where
  "index_Seek idx p = length (takeWhile (\<lambda>e. entry_before e p) idx)"

text \<open>
  Modelled from the spec: \<^verbatim>\<open>OrderedIndex\<close> \<^verbatim>\<open>seek_for_prev(probe)\<close>, the last entry not above the
  probe.
\<close>

definition index_SeekForPrev :: "WriteBatchIndexEntry list \<Rightarrow> SearchEntry \<Rightarrow> nat" where
  "index_SeekForPrev idx p =
     (let c = length (takeWhile (\<lambda>e. entry_not_after e p) idx)
      in if c = 0 then length idx else c - 1)"

text \<open>
  Modelled from the spec: \<^verbatim>\<open>OrderedIndex\<close> \<^verbatim>\<open>insert\<close>; among equal keys a newer entry comes after the
  older ones.
\<close>

definition index_Insert :: "WriteBatchIndexEntry list \<Rightarrow> WriteBatchIndexEntry \<Rightarrow> WriteBatchIndexEntry list" where
  "index_Insert idx e =
     takeWhile (\<lambda>x. entry_not_after x (KeyInCf (column_family e) (ie_key e))) idx @
     e # dropWhile (\<lambda>x. entry_not_after x (KeyInCf (column_family e) (ie_key e))) idx"

section \<open>WBWIIteratorImpl and the batch representation\<close>

text \<open>
  \<^verbatim>\<open>WBWIIteratorImpl\<close> holds a column family id and an iterator of the index; the index
  and the log it reads belong to the batch, which the model passes to each operation.
  \<^verbatim>\<open>Rep\<close> is the batch; \<^verbatim>\<open>allow_dup_merge_\<close>, a member of \<^verbatim>\<open>WriteBatchWithIndex\<close>, is
  kept in the same record.  The arena, the comparator registry and the index type do not
  affect the operations modelled here.
\<close>

record Rep =
  write_batch :: WriteBatch
  entry_index :: "WriteBatchIndexEntry list"
  overwrite_key :: bool
  last_entry_offset :: nat
  obsolete_offsets :: "nat list"
  allow_dup_merge :: bool

record WBWIIteratorImpl =
  column_family_id :: nat
  iter_pos :: nat

definition WBWI_Valid :: "Rep \<Rightarrow> WBWIIteratorImpl \<Rightarrow> bool" where
  "WBWI_Valid rep it =
     (if \<not> it_valid (entry_index rep) (iter_pos it) then False
      else column_family (entry_index rep ! iter_pos it) = column_family_id it)"

definition WBWI_SeekToFirst :: "Rep \<Rightarrow> WBWIIteratorImpl \<Rightarrow> WBWIIteratorImpl" where
  "WBWI_SeekToFirst rep it =
     it\<lparr>iter_pos := index_Seek (entry_index rep) (MinInCf (column_family_id it))\<rparr>"

definition WBWI_SeekToLast :: "Rep \<Rightarrow> WBWIIteratorImpl \<Rightarrow> WBWIIteratorImpl" where
  "WBWI_SeekToLast rep it =
     (let p = index_Seek (entry_index rep) (MinInCf ((column_family_id it + 1) mod 2 ^ 32))
      in if \<not> it_valid (entry_index rep) p
         then it\<lparr>iter_pos := it_seek_to_last (entry_index rep)\<rparr>
         else it\<lparr>iter_pos := it_prev (entry_index rep) p\<rparr>)"

definition WBWI_Seek :: "Rep \<Rightarrow> string \<Rightarrow> WBWIIteratorImpl \<Rightarrow> WBWIIteratorImpl" where
  "WBWI_Seek rep k it =
     it\<lparr>iter_pos := index_Seek (entry_index rep) (KeyInCf (column_family_id it) k)\<rparr>"

definition WBWI_SeekForPrev :: "Rep \<Rightarrow> string \<Rightarrow> WBWIIteratorImpl \<Rightarrow> WBWIIteratorImpl" where
  "WBWI_SeekForPrev rep k it =
     it\<lparr>iter_pos := index_SeekForPrev (entry_index rep) (KeyInCf (column_family_id it) k)\<rparr>"

definition WBWI_Next :: "Rep \<Rightarrow> WBWIIteratorImpl \<Rightarrow> WBWIIteratorImpl" where
  "WBWI_Next rep it = it\<lparr>iter_pos := it_next (entry_index rep) (iter_pos it)\<rparr>"

definition WBWI_Prev :: "Rep \<Rightarrow> WBWIIteratorImpl \<Rightarrow> WBWIIteratorImpl" where
  "WBWI_Prev rep it = it\<lparr>iter_pos := it_prev (entry_index rep) (iter_pos it)\<rparr>"

definition GetRawEntry :: "Rep \<Rightarrow> WBWIIteratorImpl \<Rightarrow> WriteBatchIndexEntry" where
  "GetRawEntry rep it = entry_index rep ! iter_pos it"

text \<open>
  \<^verbatim>\<open>Entry\<close> starts from a default \<^verbatim>\<open>WriteEntry\<close>; when decoding fails its slices stay
  empty.
\<close>

definition empty_entry :: WriteEntry where
  "empty_entry = \<lparr>entry_type = kXIDRecord, entry_key = [], entry_value = []\<rparr>"

definition decode_entry :: "Rep \<Rightarrow> WriteBatchIndexEntry \<Rightarrow> WriteEntry" where
  "decode_entry rep e =
     (case GetEntryFromDataOffset (write_batch rep) (offset e) of
        Some w \<Rightarrow> w | None \<Rightarrow> empty_entry)"

definition WBWI_Entry :: "Rep \<Rightarrow> WBWIIteratorImpl \<Rightarrow> WriteEntry" where
  "WBWI_Entry rep it = decode_entry rep (GetRawEntry rep it)"

definition SetLastEntryOffset :: "Rep \<Rightarrow> Rep" where
  "SetLastEntryOffset rep = rep\<lparr>last_entry_offset := GetDataSize (write_batch rep)\<rparr>"

definition UpdateExistingEntryWithCfId :: "Rep \<Rightarrow> nat \<Rightarrow> string \<Rightarrow> bool \<times> Rep" where
  "UpdateExistingEntryWithCfId rep cf k =
     (if \<not> overwrite_key rep then (False, rep)
      else
        (let it = WBWI_Seek rep k \<lparr>column_family_id = cf, iter_pos = length (entry_index rep)\<rparr> in
         if \<not> WBWI_Valid rep it then (False, rep)
         else if Compare k (entry_key (WBWI_Entry rep it)) \<noteq> 0 then (False, rep)
         else
           (let non_const_entry = GetRawEntry rep it in
            (True, rep\<lparr>obsolete_offsets := obsolete_offsets rep @ [offset non_const_entry],
                        entry_index := (entry_index rep)
                          [iter_pos it := non_const_entry\<lparr>offset := last_entry_offset rep\<rparr>]\<rparr>))))"

definition AddNewEntry :: "Rep \<Rightarrow> nat \<Rightarrow> Rep" where
  "AddNewEntry rep cf =
     (let k = (case ReadKeyFromWriteBatchEntry (write_batch rep) (last_entry_offset rep) of
                 Some k \<Rightarrow> k | None \<Rightarrow> [])
      in rep\<lparr>entry_index := index_Insert (entry_index rep)
               \<lparr>offset = last_entry_offset rep, column_family = cf, ie_key = k\<rparr>\<rparr>)"

definition AddOrUpdateIndex :: "Rep \<Rightarrow> nat \<Rightarrow> string \<Rightarrow> Rep" where
  "AddOrUpdateIndex rep cf k =
     (case UpdateExistingEntryWithCfId rep cf k of
        (True, rep') \<Rightarrow> rep'
      | (False, rep') \<Rightarrow> AddNewEntry rep' cf)"

definition ClearIndex :: "Rep \<Rightarrow> Rep" where
  "ClearIndex rep = rep\<lparr>entry_index := [], last_entry_offset := 0\<rparr>"

definition Clear :: "Rep \<Rightarrow> Rep" where
  "Clear rep = ClearIndex (rep\<lparr>write_batch := wb_Clear (write_batch rep)\<rparr>)"

fun rebuild_loop :: "(nat \<times> LogRecord) list \<Rightarrow> nat \<Rightarrow> Rep \<Rightarrow> Status \<times> nat \<times> Rep" where
  "rebuild_loop [] found rep = (OK, found, rep)"
| "rebuild_loop ((off, r) # rest) found rep =
     (let rep1 = rep\<lparr>last_entry_offset := off\<rparr> in
      if rec_tag r \<in> {kTypeValue, kTypeDeletion, kTypeSingleDeletion, kTypeMerge} then
        rebuild_loop rest (found + 1)
          (case UpdateExistingEntryWithCfId rep1 (rec_cf r) (rec_key r) of
             (True, rep2) \<Rightarrow> rep2
           | (False, rep2) \<Rightarrow> AddNewEntry rep2 (rec_cf r))
      else if rec_tag r \<in> {kTypeLogData, kTypeBeginPrepareXID, kTypeEndPrepareXID,
                              kTypeCommitXID, kTypeRollbackXID, kTypeNoop} then
        rebuild_loop rest found rep1
      else (Corruption, found, rep1))"

definition ReBuildIndex :: "Rep \<Rightarrow> Status \<times> Rep" where
  "ReBuildIndex rep0 =
     (let rep = ClearIndex rep0 in
      if wb_count (write_batch rep) = 0 then (OK, rep)
      else
        (case rebuild_loop (located (GetFirstOffset (write_batch rep)) (wb_records (write_batch rep))) 0 rep of
           (s, found, rep1) \<Rightarrow>
             if s = Corruption then (s, rep1)
             else if found \<noteq> wb_count (write_batch rep1) then (Corruption, rep1)
             else (s, rep1)))"

section \<open>WriteBatchWithIndex operations\<close>

text \<open>
  Each mutation exists with and without a column family handle; the overload without one is
  the call with column family id 0.
\<close>

definition Put :: "Rep \<Rightarrow> nat \<Rightarrow> string \<Rightarrow> string \<Rightarrow> Status \<times> Rep" where
  "Put rep0 cf k v =
     (let rep = SetLastEntryOffset rep0 in
      case wb_Put (write_batch rep) cf k v of
        (s, wb) \<Rightarrow>
          if s = OK then (s, AddOrUpdateIndex (rep\<lparr>write_batch := wb\<rparr>) cf k)
          else (s, rep\<lparr>write_batch := wb\<rparr>))"

definition Delete :: "Rep \<Rightarrow> nat \<Rightarrow> string \<Rightarrow> Status \<times> Rep" where
  "Delete rep0 cf k =
     (let rep = SetLastEntryOffset rep0 in
      case wb_Delete (write_batch rep) cf k of
        (s, wb) \<Rightarrow>
          if s = OK then (s, AddOrUpdateIndex (rep\<lparr>write_batch := wb\<rparr>) cf k)
          else (s, rep\<lparr>write_batch := wb\<rparr>))"

definition SingleDelete :: "Rep \<Rightarrow> nat \<Rightarrow> string \<Rightarrow> Status \<times> Rep" where
  "SingleDelete rep0 cf k =
     (let rep = SetLastEntryOffset rep0 in
      case wb_SingleDelete (write_batch rep) cf k of
        (s, wb) \<Rightarrow>
          if s = OK then (s, AddOrUpdateIndex (rep\<lparr>write_batch := wb\<rparr>) cf k)
          else (s, rep\<lparr>write_batch := wb\<rparr>))"

definition DeleteRange :: "Rep \<Rightarrow> nat \<Rightarrow> string \<Rightarrow> string \<Rightarrow> Status \<times> Rep" where
  "DeleteRange rep0 cf begin_key end_key =
     (let rep = SetLastEntryOffset rep0 in
      case wb_DeleteRange (write_batch rep) cf begin_key end_key of
        (s, wb) \<Rightarrow>
          if s = OK then (s, AddOrUpdateIndex (rep\<lparr>write_batch := wb\<rparr>) cf begin_key)
          else (s, rep\<lparr>write_batch := wb\<rparr>))"

definition Merge :: "Rep \<Rightarrow> nat \<Rightarrow> string \<Rightarrow> string \<Rightarrow> Status \<times> Rep" where
  "Merge rep0 cf k v =
     (let rep = SetLastEntryOffset rep0 in
      case wb_Merge (write_batch rep) cf k v of
        (s, wb) \<Rightarrow>
          if s = OK then
            (let rep1 = rep\<lparr>write_batch := wb\<rparr>;
                 size_before = length (obsolete_offsets rep1);
                 rep2 = AddOrUpdateIndex rep1 cf k;
                 size_after = length (obsolete_offsets rep2);
                 duplicate_key = (size_before \<noteq> size_after)
             in if \<not> allow_dup_merge rep2 \<and> duplicate_key then (NotSupported, rep2)
                else (s, rep2))
          else (s, rep\<lparr>write_batch := wb\<rparr>))"

definition PutLogData :: "Rep \<Rightarrow> string \<Rightarrow> Status \<times> Rep" where
  "PutLogData rep blob =
     (case wb_PutLogData (write_batch rep) blob of (s, wb) \<Rightarrow> (s, rep\<lparr>write_batch := wb\<rparr>))"

definition SetSavePoint :: "Rep \<Rightarrow> Rep" where
  "SetSavePoint rep = rep\<lparr>write_batch := wb_SetSavePoint (write_batch rep)\<rparr>"

definition RollbackToSavePoint :: "Rep \<Rightarrow> Status \<times> Rep" where
  "RollbackToSavePoint rep =
     (case wb_RollbackToSavePoint (write_batch rep) of
        (s, wb) \<Rightarrow>
          if s = OK then
            (case ReBuildIndex (rep\<lparr>write_batch := wb\<rparr>) of
               (s', rep') \<Rightarrow> (s', rep'\<lparr>obsolete_offsets := []\<rparr>))
          else (s, rep\<lparr>write_batch := wb\<rparr>))"

definition PopSavePoint :: "Rep \<Rightarrow> Status \<times> Rep" where
  "PopSavePoint rep =
     (case wb_PopSavePoint (write_batch rep) of (s, wb) \<Rightarrow> (s, rep\<lparr>write_batch := wb\<rparr>))"

subsection \<open>Collapse\<close>

text \<open>
  \<^verbatim>\<open>obsolete_offsets.front()\<close> on an empty vector has no defined result; the walk reports it
  as a fault.  The switch counts the four tags it lists, passes the control tags, and for any
  other tag (\<^verbatim>\<open>DeleteRange\<close>) runs into \<^verbatim>\<open>assert(0)\<close>, after which the record is copied
  uncounted.  The fresh buffer starts with a zeroed header, whose count is then set.
\<close>

datatype Fault = FrontOfEmptyVector

fun collapse_loop ::
  "(nat \<times> LogRecord) list \<Rightarrow> nat list \<Rightarrow> LogRecord list \<Rightarrow> nat \<Rightarrow>
     Fault + (LogRecord list \<times> nat \<times> nat list)" where
  "collapse_loop [] obs buf cnt = Inr (buf, cnt, obs)"
| "collapse_loop ((entry_offset, r) # rest) obs buf cnt =
     (case obs of
        [] \<Rightarrow> Inl FrontOfEmptyVector
      | front # obs' \<Rightarrow>
          if front = entry_offset then collapse_loop rest obs' buf cnt
          else collapse_loop rest obs (buf @ [r])
                 (if rec_tag r \<in> {kTypeValue, kTypeDeletion, kTypeSingleDeletion, kTypeMerge}
                  then cnt + 1 else cnt))"

definition Collapse :: "Rep \<Rightarrow> Fault + (bool \<times> Rep)" where
  "Collapse rep =
     (if length (obsolete_offsets rep) = 0 then Inr (False, rep)
      else
        (case collapse_loop
                (located (GetFirstOffset (write_batch rep)) (wb_records (write_batch rep)))
                (sort (obsolete_offsets rep)) [] 0 of
           Inl f \<Rightarrow> Inl f
         | Inr (collapsed_buf, cnt, obs) \<Rightarrow>
             Inr (True, rep\<lparr>write_batch := (write_batch rep)
                                 \<lparr>wb_records := collapsed_buf, wb_count := cnt\<rparr>,
                              obsolete_offsets := obs\<rparr>)))"

subsection \<open>Iterators\<close>

text \<open>
  \<^verbatim>\<open>NewIteratorWithBase\<close> hands the base iterator and \<^verbatim>\<open>NewIterator(column_family)\<close> to
  the merged iterator.  \<open>column_entries\<close> is the sequence that the batch iterator of that
  column walks: the index entries of the column, in index order, each decoded by
  \<^verbatim>\<open>Entry\<close>.  The null handle is \<open>None\<close>.
\<close>

definition column_entries :: "Rep \<Rightarrow> nat \<Rightarrow> WriteEntry list" where
  "column_entries rep cf =
     map (decode_entry rep) (filter (\<lambda>e. column_family e = cf) (entry_index rep))"

definition NewIteratorWithBase ::
  "Rep \<Rightarrow> nat \<Rightarrow> (string \<times> string) list \<Rightarrow> nat \<Rightarrow> BaseDeltaIterator option" where
  "NewIteratorWithBase rep cf base_seq base_at =
     (if overwrite_key rep = False then None
      else Some \<lparr>forward = True, current_at_base = True, equal_keys = False, status = OK,
                 base_items = base_seq, base_pos = base_at,
                 delta_items = column_entries rep cf,
                 delta_pos = length (column_entries rep cf)\<rparr>)"

subsection \<open>Point lookup\<close>

text \<open>
  \<^verbatim>\<open>GetFromBatch\<close> maps the result of the internal lookup to a status.
\<close>

text \<open>
  Modelled from the spec: the result of the internal lookup,
  \<open>{Found(v), Deleted, NotFound, MergeInProgress, Error}\<close>.
\<close>

datatype Result = kFound string | kDeleted | kNotFound | kMergeInProgress "string list" | kError

text \<open>
  Modelled from the spec: the scan of \<^verbatim>\<open>get_from_batch\<close> over the entries of a key, newest first:
  the first tombstone gives \<open>Deleted\<close>, the first \<open>Put\<close> gives \<open>Found\<close>, \<open>Merge\<close> records
  accumulate operands; at the oldest entry the result is \<open>MergeInProgress\<close> when operands
  were collected and \<open>NotFound\<close> otherwise.  A record of any other kind gives \<open>Error\<close>.
\<close>

fun scan_newest_first :: "WriteEntry list \<Rightarrow> string list \<Rightarrow> Result" where
  "scan_newest_first [] operands = (if operands = [] then kNotFound else kMergeInProgress operands)"
| "scan_newest_first (e # es) operands =
     (if entry_type e = kDeleteRecord \<or> entry_type e = kSingleDeleteRecord then kDeleted
      else if entry_type e = kPutRecord then kFound (entry_value e)
      else if entry_type e = kMergeRecord then scan_newest_first es (operands @ [entry_value e])
      else kError)"

text \<open>
  Modelled from the spec: the batch's entries for \<open>(column, key)\<close>, oldest first: the run of
  index entries of the column from \<^verbatim>\<open>seek(key)\<close> on whose decoded record has that key.
\<close>

definition entries_for :: "Rep \<Rightarrow> nat \<Rightarrow> string \<Rightarrow> WriteEntry list" where
  "entries_for rep cf k =
     takeWhile (\<lambda>w. entry_key w = k)
       (map (decode_entry rep)
          (takeWhile (\<lambda>e. column_family e = cf)
             (drop (index_Seek (entry_index rep) (KeyInCf cf k)) (entry_index rep))))"

text \<open>
  Modelled from the spec: \<^verbatim>\<open>WriteBatchWithIndexInternal::GetFromBatch\<close>, which is not part of
  this file.
\<close>

definition GetFromBatch_internal :: "Rep \<Rightarrow> nat \<Rightarrow> string \<Rightarrow> Result" where
  "GetFromBatch_internal rep cf k = scan_newest_first (rev (entries_for rep cf k)) []"

definition GetFromBatch :: "Rep \<Rightarrow> nat \<Rightarrow> string \<Rightarrow> Status \<times> string option" where
  "GetFromBatch rep cf k =
     (case GetFromBatch_internal rep cf k of
        kFound v \<Rightarrow> (OK, Some v)
      | kError \<Rightarrow> (Corruption, None)
      | kDeleted \<Rightarrow> (NotFound, None)
      | kNotFound \<Rightarrow> (NotFound, None)
      | kMergeInProgress ops \<Rightarrow> (MergeInProgress, None))"

subsection \<open>Construction\<close>

text \<open>The constructor: an empty log and index; the options are the fields.\<close>

definition empty_batch :: "bool \<Rightarrow> bool \<Rightarrow> nat \<Rightarrow> Rep" where
  "empty_batch overwrite allow_dup max_bytes =
     \<lparr>write_batch = \<lparr>wb_records = [], wb_count = 0, wb_save_points = [], wb_max_bytes = max_bytes\<rparr>,
      entry_index = [], overwrite_key = overwrite, last_entry_offset = 0,
      obsolete_offsets = [], allow_dup_merge = allow_dup\<rparr>"

section \<open>Scenarios\<close>

text \<open>The end-to-end scenarios of the specification, as closed terms.\<close>

definition new_iterator :: "(string \<times> string) list \<Rightarrow> WriteEntry list \<Rightarrow> BaseDeltaIterator" where
  "new_iterator bs ds =
     \<lparr>forward = True, current_at_base = True, equal_keys = False, status = OK,
      base_items = bs, base_pos = length bs, delta_items = ds, delta_pos = length ds\<rparr>"

definition put_entry :: "string \<Rightarrow> string \<Rightarrow> WriteEntry" where
  "put_entry k v = \<lparr>entry_type = kPutRecord, entry_key = k, entry_value = v\<rparr>"

definition delete_entry :: "string \<Rightarrow> WriteEntry" where
  "delete_entry k = \<lparr>entry_type = kDeleteRecord, entry_key = k, entry_value = []\<rparr>"

definition tombstone_masking :: BaseDeltaIterator where
  "tombstone_masking =
     new_iterator [(''a'', ''X''), (''b'', ''Y''), (''c'', ''Z'')]
       [delete_entry ''b'', put_entry ''c'' ''Z2'']"

definition direction_flip :: BaseDeltaIterator where
  "direction_flip = new_iterator [(''k'', ''a''), (''n'', ''b'')] [put_entry ''m'' ''v'']"

definition then_do :: "Status \<times> Rep \<Rightarrow> (Rep \<Rightarrow> Status \<times> Rep) \<Rightarrow> Status \<times> Rep" where
  "then_do sr f = f (snd sr)"

definition overwrite_batch :: Rep where
  "overwrite_batch = empty_batch True False 0"

definition plain_batch :: Rep where
  "plain_batch = empty_batch False False 0"

definition basic_overwrite :: Rep where
  "basic_overwrite =
     snd (then_do (then_do (Put overwrite_batch 0 ''a'' ''1'') (\<lambda>b. Put b 0 ''a'' ''2''))
            (\<lambda>b. Put b 0 ''b'' ''3''))"

definition rollback_rebuild :: "Status \<times> Rep" where
  "rollback_rebuild =
     then_do (then_do (then_do (Put overwrite_batch 0 ''x'' ''1'')
                 (\<lambda>b. Put (SetSavePoint b) 0 ''y'' ''2''))
              (\<lambda>b. Delete b 0 ''x''))
       RollbackToSavePoint"

definition merge_once :: Rep where
  "merge_once = snd (Merge overwrite_batch 0 ''k'' ''a'')"

definition reused_after_clear :: Rep where
  "reused_after_clear =
     snd (then_do (then_do (Put (Clear (snd (then_do (Put overwrite_batch 0 ''a'' ''1'')
                                              (\<lambda>b. Put b 0 ''a'' ''2'')))) 0 ''a'' ''1'')
                     (\<lambda>b. Put b 0 ''a'' ''2''))
            (\<lambda>b. Put b 0 ''b'' ''3''))"

definition stale_after_clear :: Rep where
  "stale_after_clear =
     snd (then_do (then_do (Put (Clear (snd (then_do (then_do (Put overwrite_batch 0 ''a'' ''1'')
                                              (\<lambda>b. Put b 0 ''a'' ''2'')) (\<lambda>b. Put b 0 ''a'' ''3''))))
                              0 ''bbb'' ''1'')
                     (\<lambda>b. Put b 0 ''c'' ''1''))
            (\<lambda>b. Put b 0 ''c'' ''2''))"

definition range_after_clear :: Rep where
  "range_after_clear =
     snd (then_do (then_do (Put (Clear (snd (then_do (Put overwrite_batch 0 ''a'' ''1'')
                                              (\<lambda>b. Put b 0 ''a'' ''2'')))) 0 ''a'' ''1'')
                     (\<lambda>b. Put b 0 ''a'' ''2''))
            (\<lambda>b. DeleteRange b 0 ''b'' ''c''))"


definition collapsed :: "Rep \<Rightarrow> Rep" where
  "collapsed rep = (case Collapse rep of Inr (b, r) \<Rightarrow> r | Inl f \<Rightarrow> rep)"

text \<open>The tombstone-masking scenario with the batch built by its mutations.\<close>

definition masking_batch :: Rep where
  "masking_batch = snd (then_do (Delete overwrite_batch 0 ''b'') (\<lambda>b. Put b 0 ''c'' ''Z2''))"

definition masking_base :: "(string \<times> string) list" where
  "masking_base = [(''a'', ''X''), (''b'', ''Y''), (''c'', ''Z'')]"

fun scan_loop :: "nat \<Rightarrow> BaseDeltaIterator \<Rightarrow> (string \<times> string) list option" where
  "scan_loop 0 it = None"
| "scan_loop (Suc n) it =
     (if Valid it then map_option ((#) (key it, val it)) (scan_loop n (Next it)) else Some [])"

definition ForwardScan :: "BaseDeltaIterator \<Rightarrow> (string \<times> string) list option" where
  "ForwardScan it =
     scan_loop (Suc (length (base_items it) + length (delta_items it))) (SeekToFirst it)"


section \<open>Predicates used in the proofs\<close>

text \<open>
  The proofs describe a position of one underlying iterator as a cut of its key sequence by
  a predicate: the forward cursor stands at the first key that satisfies an upward-closed
  predicate, the reverse cursor at the last key that satisfies a downward-closed one.  The
  merged iterator is then characterised by the least (greatest) visible key beyond the cut.
\<close>

declare UpdateCurrent.simps [simp del]

definition dcmp :: "BaseDeltaIterator \<Rightarrow> int" where
  "dcmp it = (if forward it then 1 else - 1) * Compare (entry_key (delta_Entry it)) (base_key it)"

definition delta_left :: "BaseDeltaIterator \<Rightarrow> nat" where
  "delta_left it = (if DeltaValid it
        then (if forward it then length (delta_items it) - delta_pos it else Suc (delta_pos it))
        else 0)"

definition invariant :: "BaseDeltaIterator \<Rightarrow> bool" where
  "invariant it =
     ((BaseValid it \<and> DeltaValid it \<longrightarrow>
        (if forward it
         then (current_at_base it \<longrightarrow> base_key it < entry_key (delta_Entry it)) \<and>
              (\<not> current_at_base it \<longrightarrow> entry_key (delta_Entry it) \<le> base_key it)
         else (current_at_base it \<longrightarrow> entry_key (delta_Entry it) < base_key it) \<and>
              (\<not> current_at_base it \<longrightarrow> base_key it \<le> entry_key (delta_Entry it)))) \<and>
      (equal_keys it \<longleftrightarrow>
         BaseValid it \<and> DeltaValid it \<and> entry_key (delta_Entry it) = base_key it))"

definition is_cut :: "string list \<Rightarrow> (string \<Rightarrow> bool) \<Rightarrow> nat \<Rightarrow> bool" where
  "is_cut ks A p \<longleftrightarrow> p \<le> length ks \<and> (\<forall>i<length ks. A (ks ! i) \<longleftrightarrow> p \<le> i)"

definition rcnt :: "nat \<Rightarrow> nat \<Rightarrow> nat" where
  "rcnt n p = (if p < n then Suc p else 0)"

definition is_rcut :: "string list \<Rightarrow> (string \<Rightarrow> bool) \<Rightarrow> nat \<Rightarrow> bool" where
  "is_rcut ks B p \<longleftrightarrow> p \<le> length ks \<and> (\<forall>i<length ks. B (ks ! i) \<longleftrightarrow> i < rcnt (length ks) p)"

definition bkeys :: "BaseDeltaIterator \<Rightarrow> string list" where
  "bkeys it = map fst (base_items it)"

definition dkeys :: "BaseDeltaIterator \<Rightarrow> string list" where
  "dkeys it = map entry_key (delta_items it)"

definition wf_items :: "BaseDeltaIterator \<Rightarrow> bool" where
  "wf_items it \<longleftrightarrow> sorted_wrt (<) (bkeys it) \<and> sorted_wrt (<) (dkeys it)"

definition visible :: "(string \<times> string) list \<Rightarrow> WriteEntry list \<Rightarrow> string \<Rightarrow> bool" where
  "visible bs ds x \<longleftrightarrow>
     (\<exists>e\<in>set ds. entry_key e = x \<and> \<not> is_delete e) \<or>
     (x \<in> fst ` set bs \<and> x \<notin> entry_key ` set ds)"

definition vis :: "BaseDeltaIterator \<Rightarrow> string \<Rightarrow> bool" where
  "vis it = visible (base_items it) (delta_items it)"

definition upc :: "(string \<Rightarrow> bool) \<Rightarrow> bool" where
  "upc A \<longleftrightarrow> (\<forall>a b. A a \<and> a \<le> b \<longrightarrow> A b)"

definition Fcut :: "BaseDeltaIterator \<Rightarrow> (string \<Rightarrow> bool) \<Rightarrow> bool" where
  "Fcut it A \<longleftrightarrow> forward it \<and> is_cut (bkeys it) A (base_pos it) \<and> is_cut (dkeys it) A (delta_pos it)"

definition Fstate :: "BaseDeltaIterator \<Rightarrow> string \<Rightarrow> bool" where
  "Fstate it x \<longleftrightarrow> Fcut it (\<lambda>k. x \<le> k) \<and>
     current_at_base it = (x \<notin> set (dkeys it)) \<and>
     equal_keys it = (x \<in> set (bkeys it) \<and> x \<in> set (dkeys it))"

definition fpost :: "BaseDeltaIterator \<Rightarrow> string set \<Rightarrow> BaseDeltaIterator \<Rightarrow> bool" where
  "fpost it S r \<longleftrightarrow> base_items r = base_items it \<and> delta_items r = delta_items it \<and>
     ((\<exists>x\<in>S. (\<forall>v\<in>S. x \<le> v) \<and> Fstate r x) \<or> (S = {} \<and> \<not> BaseValid r \<and> \<not> DeltaValid r))"

definition dnc :: "(string \<Rightarrow> bool) \<Rightarrow> bool" where
  "dnc B \<longleftrightarrow> (\<forall>a b. B b \<and> a \<le> b \<longrightarrow> B a)"

definition Rcut :: "BaseDeltaIterator \<Rightarrow> (string \<Rightarrow> bool) \<Rightarrow> bool" where
  "Rcut it B \<longleftrightarrow> \<not> forward it \<and> is_rcut (bkeys it) B (base_pos it) \<and> is_rcut (dkeys it) B (delta_pos it)"

definition Rstate :: "BaseDeltaIterator \<Rightarrow> string \<Rightarrow> bool" where
  "Rstate it x \<longleftrightarrow> Rcut it (\<lambda>k. k \<le> x) \<and>
     current_at_base it = (x \<notin> set (dkeys it)) \<and>
     equal_keys it = (x \<in> set (bkeys it) \<and> x \<in> set (dkeys it))"

definition rpost :: "BaseDeltaIterator \<Rightarrow> string set \<Rightarrow> BaseDeltaIterator \<Rightarrow> bool" where
  "rpost it S r \<longleftrightarrow> base_items r = base_items it \<and> delta_items r = delta_items it \<and>
     ((\<exists>x\<in>S. (\<forall>v\<in>S. v \<le> x) \<and> Rstate r x) \<or> (S = {} \<and> \<not> BaseValid r \<and> \<not> DeltaValid r))"

definition rprev :: "nat \<Rightarrow> nat \<Rightarrow> nat" where
  "rprev n p = (if p = 0 then n else p - 1)"

definition fnext :: "nat \<Rightarrow> nat \<Rightarrow> nat" where
  "fnext n p = (if p < n then Suc p else 0)"

definition shadow_val :: "(string \<times> string) list \<Rightarrow> WriteEntry list \<Rightarrow> string \<Rightarrow> string" where
  "shadow_val bs ds x =
     (case find (\<lambda>e. entry_key e = x) ds of
        Some e \<Rightarrow> entry_value e
      | None \<Rightarrow> (case map_of bs x of Some v \<Rightarrow> v | None \<Rightarrow> []))"

text \<open>
  The index orders its entries by column family, then by key (the comparator of
  \<^verbatim>\<open>WriteBatchEntryIndex\<close>); \<open>ekey\<close> is that pair.
\<close>

definition ekey :: "WriteBatchIndexEntry \<Rightarrow> nat \<times> string" where
  "ekey e = (column_family e, ie_key e)"

text \<open>
  The tags of the records that the mutations of this file put into the index.
\<close>

definition indexed_tag :: "ValueType \<Rightarrow> bool" where
  "indexed_tag t \<longleftrightarrow> t \<in> {kTypeValue, kTypeDeletion, kTypeSingleDeletion, kTypeMerge, kTypeRangeDeletion}"

text \<open>
  The index is in key order; in overwrite mode it has one entry for a column family and key.
\<close>

definition index_sorted :: "Rep \<Rightarrow> bool" where
  "index_sorted rep \<longleftrightarrow> sorted (map ekey (entry_index rep)) \<and>
     (overwrite_key rep \<longrightarrow> distinct (map ekey (entry_index rep)))"

text \<open>
  An index entry agrees with the log: a record starts at its offset and has its key and
  column family.
\<close>

definition entry_matches :: "WriteBatch \<Rightarrow> WriteBatchIndexEntry \<Rightarrow> bool" where
  "entry_matches wb e =
     (case record_at wb (offset e) of
        None \<Rightarrow> False
      | Some r \<Rightarrow> rec_key r = ie_key e \<and> rec_cf r = column_family e \<and> indexed_tag (rec_tag r))"

definition entries_consistent :: "Rep \<Rightarrow> bool" where
  "entries_consistent rep \<longleftrightarrow> list_all (entry_matches (write_batch rep)) (entry_index rep)"

text \<open>
  The column family has an index entry for the key.
\<close>

definition has_live_entry :: "Rep \<Rightarrow> nat \<Rightarrow> string \<Rightarrow> bool" where
  "has_live_entry rep cf k \<longleftrightarrow> (\<exists>e\<in>set (entry_index rep). column_family e = cf \<and> ie_key e = k)"

text \<open>
  The effect of \<^verbatim>\<open>AddOrUpdateIndex\<close> on the index alone, for a record at offset \<open>off\<close>: in
  overwrite mode an entry found for the key is redirected, otherwise a new entry is inserted.
  \<open>replay\<close> does this for every indexed record of a log, from the empty index.
\<close>

definition idx_update ::
  "bool \<Rightarrow> WriteBatchIndexEntry list \<Rightarrow> nat \<Rightarrow> nat \<Rightarrow> string \<Rightarrow> WriteBatchIndexEntry list" where
  "idx_update ow idx off cf k =
     (let p = index_Seek idx (KeyInCf cf k) in
      if ow \<and> p < length idx \<and> ekey (idx ! p) = (cf, k)
      then idx[p := (idx ! p)\<lparr>offset := off\<rparr>]
      else index_Insert idx \<lparr>offset = off, column_family = cf, ie_key = k\<rparr>)"

definition replay_step ::
  "bool \<Rightarrow> WriteBatchIndexEntry list \<Rightarrow> nat \<times> LogRecord \<Rightarrow> WriteBatchIndexEntry list" where
  "replay_step ow idx lr =
     (if indexed_tag (rec_tag (snd lr))
      then idx_update ow idx (fst lr) (rec_cf (snd lr)) (rec_key (snd lr)) else idx)"

definition replay :: "bool \<Rightarrow> (nat \<times> LogRecord) list \<Rightarrow> WriteBatchIndexEntry list" where
  "replay ow lrs = foldl (replay_step ow) [] lrs"

text \<open>
  The state that the mutations keep: the index is the replay of the log, the header count is
  the number of indexed records, and the index agrees with the log and is in order.
\<close>

definition batch_inv :: "Rep \<Rightarrow> bool" where
  "batch_inv rep \<longleftrightarrow>
     entry_index rep = replay (overwrite_key rep) (located kHeader (wb_records (write_batch rep))) \<and>
     wb_count (write_batch rep) =
       length (filter (\<lambda>r. indexed_tag (rec_tag r)) (wb_records (write_batch rep))) \<and>
     entries_consistent rep \<and> index_sorted rep"

text \<open>
  Sequences of mutations: each operation is applied to the state that the one before left,
  whatever status it returned.
\<close>

datatype Op = OpPut nat string string | OpDelete nat string | OpSingleDelete nat string
  | OpDeleteRange nat string string | OpMerge nat string string | OpPutLogData string

fun apply_op :: "Rep \<Rightarrow> Op \<Rightarrow> Rep" where
  "apply_op rep (OpPut cf k v) = snd (Put rep cf k v)"
| "apply_op rep (OpDelete cf k) = snd (Delete rep cf k)"
| "apply_op rep (OpSingleDelete cf k) = snd (SingleDelete rep cf k)"
| "apply_op rep (OpDeleteRange cf b e) = snd (DeleteRange rep cf b e)"
| "apply_op rep (OpMerge cf k v) = snd (Merge rep cf k v)"
| "apply_op rep (OpPutLogData blob) = snd (PutLogData rep blob)"

definition apply_ops :: "Rep \<Rightarrow> Op list \<Rightarrow> Rep" where
  "apply_ops rep ops = foldl apply_op rep ops"

text \<open>
  The common shape of \<^verbatim>\<open>Put\<close>, \<^verbatim>\<open>Delete\<close>, \<^verbatim>\<open>SingleDelete\<close> and \<^verbatim>\<open>DeleteRange\<close>, and of the
  state that \<^verbatim>\<open>Merge\<close> leaves: note the offset, append the record, index it when the log took
  it.
\<close>

definition mutate :: "Rep \<Rightarrow> LogRecord \<Rightarrow> Status \<times> Rep" where
  "mutate rep0 r =
     (let rep = SetLastEntryOffset rep0 in
      case wb_append (write_batch rep) r True of
        (s, wb) \<Rightarrow>
          if s = OK then (s, AddOrUpdateIndex (rep\<lparr>write_batch := wb\<rparr>) (rec_cf r) (rec_key r))
          else (s, rep\<lparr>write_batch := wb\<rparr>))"

text \<open>
  The log after a counted record was appended, and the condition under which the log takes
  a record.
\<close>

definition appended :: "WriteBatch \<Rightarrow> LogRecord \<Rightarrow> WriteBatch" where
  "appended wb r = wb\<lparr>wb_records := wb_records wb @ [r], wb_count := wb_count wb + 1\<rparr>"

definition fits :: "WriteBatch \<Rightarrow> LogRecord \<Rightarrow> bool" where
  "fits wb r \<longleftrightarrow> \<not> (wb_max_bytes wb \<noteq> 0 \<and> GetDataSize wb + EncodedSize r > wb_max_bytes wb)"

text \<open>
  The condition under which \<^verbatim>\<open>UpdateExistingEntryWithCfId\<close> redirects an entry: overwrite
  mode, and the entry at the seek position has the column family and the key.
\<close>

definition updates_entry :: "Rep \<Rightarrow> nat \<Rightarrow> string \<Rightarrow> bool" where
  "updates_entry rep cf k \<longleftrightarrow>
     overwrite_key rep \<and>
     index_Seek (entry_index rep) (KeyInCf cf k) < length (entry_index rep) \<and>
     ekey (entry_index rep ! index_Seek (entry_index rep) (KeyInCf cf k)) = (cf, k)"

text \<open>
  The latest indexed record of a log for a column family and key, and the tags that the
  merged iterator treats as tombstones.
\<close>

definition latest_in :: "LogRecord list \<Rightarrow> nat \<Rightarrow> string \<Rightarrow> LogRecord option" where
  "latest_in recs cf k =
     (case filter (\<lambda>r. indexed_tag (rec_tag r) \<and> rec_cf r = cf \<and> rec_key r = k) (rev recs) of
        [] \<Rightarrow> None
      | r # rs \<Rightarrow> Some r)"

definition latest :: "Rep \<Rightarrow> nat \<Rightarrow> string \<Rightarrow> LogRecord option" where
  "latest rep cf k = latest_in (wb_records (write_batch rep)) cf k"

definition tombstone :: "LogRecord \<Rightarrow> bool" where
  "tombstone r \<longleftrightarrow> rec_tag r = kTypeDeletion \<or> rec_tag r = kTypeSingleDeletion"

text \<open>
  The entry that \<^verbatim>\<open>Entry\<close> decodes from a record.
\<close>

definition entry_of :: "LogRecord \<Rightarrow> WriteEntry" where
  "entry_of r = \<lparr>entry_type = write_type (rec_tag r), entry_key = rec_key r, entry_value = rec_value r\<rparr>"


section \<open>Lemmas\<close>

lemma UC_both_invalid:
  "\<not> BaseValid it \<Longrightarrow> \<not> DeltaValid it \<Longrightarrow> UpdateCurrent it = it\<lparr>equal_keys := False\<rparr>"
  by (subst UpdateCurrent.simps) (simp add: Let_def BaseValid_def DeltaValid_def)

lemma UC_base_invalid_delete:
  "\<not> BaseValid it \<Longrightarrow> DeltaValid it \<Longrightarrow> is_delete (delta_Entry it) \<Longrightarrow>
   UpdateCurrent it = UpdateCurrent (AdvanceDelta (it\<lparr>equal_keys := False\<rparr>))"
  by (subst UpdateCurrent.simps) (simp add: Let_def BaseValid_def DeltaValid_def delta_Entry_def)

lemma UC_base_invalid_live:
  "\<not> BaseValid it \<Longrightarrow> DeltaValid it \<Longrightarrow> \<not> is_delete (delta_Entry it) \<Longrightarrow>
   UpdateCurrent it = it\<lparr>equal_keys := False, current_at_base := False\<rparr>"
  by (subst UpdateCurrent.simps) (simp add: Let_def BaseValid_def DeltaValid_def delta_Entry_def)

lemma UC_delta_invalid:
  "BaseValid it \<Longrightarrow> \<not> DeltaValid it \<Longrightarrow>
   UpdateCurrent it = it\<lparr>equal_keys := False, current_at_base := True\<rparr>"
  by (subst UpdateCurrent.simps) (simp add: Let_def BaseValid_def DeltaValid_def)

lemma UC_base_first:
  "BaseValid it \<Longrightarrow> DeltaValid it \<Longrightarrow> 0 < dcmp it \<Longrightarrow>
   UpdateCurrent it = it\<lparr>equal_keys := False, current_at_base := True\<rparr>"
  by (subst UpdateCurrent.simps)
     (simp add: Let_def BaseValid_def DeltaValid_def dcmp_def delta_Entry_def base_key_def)

lemma UC_delta_first_live:
  "BaseValid it \<Longrightarrow> DeltaValid it \<Longrightarrow> dcmp it \<le> 0 \<Longrightarrow> \<not> is_delete (delta_Entry it) \<Longrightarrow>
   UpdateCurrent it = it\<lparr>equal_keys := (dcmp it = 0), current_at_base := False\<rparr>"
  by (subst UpdateCurrent.simps)
     (simp add: Let_def BaseValid_def DeltaValid_def dcmp_def delta_Entry_def base_key_def)

lemma UC_delta_first_delete:
  "BaseValid it \<Longrightarrow> DeltaValid it \<Longrightarrow> dcmp it < 0 \<Longrightarrow> is_delete (delta_Entry it) \<Longrightarrow>
   UpdateCurrent it = UpdateCurrent (AdvanceDelta (it\<lparr>equal_keys := False\<rparr>))"
  by (subst UpdateCurrent.simps)
     (cases "forward it"; simp add: Let_def BaseValid_def DeltaValid_def dcmp_def delta_Entry_def base_key_def)

lemma UC_equal_delete:
  "BaseValid it \<Longrightarrow> DeltaValid it \<Longrightarrow> dcmp it = 0 \<Longrightarrow> is_delete (delta_Entry it) \<Longrightarrow>
   UpdateCurrent it = UpdateCurrent (AdvanceBase (AdvanceDelta (it\<lparr>equal_keys := True\<rparr>)))"
  by (subst UpdateCurrent.simps)
     (cases "forward it"; simp add: Let_def BaseValid_def DeltaValid_def dcmp_def delta_Entry_def base_key_def)

lemma delta_left_AdvanceDelta:
  "DeltaValid it \<Longrightarrow> delta_left (AdvanceDelta (it\<lparr>equal_keys := b\<rparr>)) < delta_left it"
  by (cases "forward it")
     (auto simp: delta_left_def DeltaValid_def it_valid_def AdvanceDelta_def it_next_def it_prev_def)

lemma delta_left_AdvanceBase: "delta_left (AdvanceBase it) = delta_left it"
  by (simp add: delta_left_def DeltaValid_def AdvanceBase_def)

lemma UpdateCurrent_induct2 [case_names both_invalid base_invalid_delete base_invalid_live
    delta_invalid base_first delta_first_live delta_first_delete equal_delete]:
  assumes a1: "\<And>it. \<not> BaseValid it \<Longrightarrow> \<not> DeltaValid it \<Longrightarrow> P it"
    and a2: "\<And>it. \<not> BaseValid it \<Longrightarrow> DeltaValid it \<Longrightarrow> is_delete (delta_Entry it) \<Longrightarrow>
           P (AdvanceDelta (it\<lparr>equal_keys := False\<rparr>)) \<Longrightarrow> P it"
    and a3: "\<And>it. \<not> BaseValid it \<Longrightarrow> DeltaValid it \<Longrightarrow> \<not> is_delete (delta_Entry it) \<Longrightarrow> P it"
    and a4: "\<And>it. BaseValid it \<Longrightarrow> \<not> DeltaValid it \<Longrightarrow> P it"
    and a5: "\<And>it. BaseValid it \<Longrightarrow> DeltaValid it \<Longrightarrow> 0 < dcmp it \<Longrightarrow> P it"
    and a6: "\<And>it. BaseValid it \<Longrightarrow> DeltaValid it \<Longrightarrow> dcmp it \<le> 0 \<Longrightarrow>
           \<not> is_delete (delta_Entry it) \<Longrightarrow> P it"
    and a7: "\<And>it. BaseValid it \<Longrightarrow> DeltaValid it \<Longrightarrow> dcmp it < 0 \<Longrightarrow>
           is_delete (delta_Entry it) \<Longrightarrow> P (AdvanceDelta (it\<lparr>equal_keys := False\<rparr>)) \<Longrightarrow> P it"
    and a8: "\<And>it. BaseValid it \<Longrightarrow> DeltaValid it \<Longrightarrow> dcmp it = 0 \<Longrightarrow>
           is_delete (delta_Entry it) \<Longrightarrow>
           P (AdvanceBase (AdvanceDelta (it\<lparr>equal_keys := True\<rparr>))) \<Longrightarrow> P it"
  shows "P it"
proof (induction "delta_left it" arbitrary: it rule: less_induct)
  case less
  show ?case
  proof (cases "BaseValid it")
    case bv: False
    show ?thesis
    proof (cases "DeltaValid it")
      case False with bv show ?thesis by (rule a1)
    next
      case dv: True
      show ?thesis
      proof (cases "is_delete (delta_Entry it)")
        case True
        have "P (AdvanceDelta (it\<lparr>equal_keys := False\<rparr>))"
          by (rule less) (rule delta_left_AdvanceDelta[OF dv])
        with bv dv True show ?thesis by (rule a2)
      next
        case False with bv dv show ?thesis by (rule a3)
      qed
    qed
  next
    case bv: True
    show ?thesis
    proof (cases "DeltaValid it")
      case False with bv show ?thesis by (rule a4)
    next
      case dv: True
      consider (gt) "0 < dcmp it" | (lt) "dcmp it < 0" | (eq) "dcmp it = 0" by linarith
      then show ?thesis
      proof cases
        case gt with bv dv show ?thesis by (rule a5)
      next
        case lt
        show ?thesis
        proof (cases "is_delete (delta_Entry it)")
          case True
          have "P (AdvanceDelta (it\<lparr>equal_keys := False\<rparr>))"
            by (rule less) (rule delta_left_AdvanceDelta[OF dv])
          with bv dv lt True show ?thesis by (rule a7)
        next
          case False
          from lt have "dcmp it \<le> 0" by simp
          with bv dv show ?thesis using False by (rule a6)
        qed
      next
        case eq
        show ?thesis
        proof (cases "is_delete (delta_Entry it)")
          case True
          have "P (AdvanceBase (AdvanceDelta (it\<lparr>equal_keys := True\<rparr>)))"
            by (rule less) (simp add: delta_left_AdvanceBase delta_left_AdvanceDelta[OF dv])
          with bv dv eq True show ?thesis by (rule a8)
        next
          case False
          from eq have "dcmp it \<le> 0" by simp
          with bv dv show ?thesis using False by (rule a6)
        qed
      qed
    qed
  qed
qed

lemma dcmp_pos: "0 < dcmp it \<longleftrightarrow>
    (if forward it then base_key it < entry_key (delta_Entry it)
     else entry_key (delta_Entry it) < base_key it)"
  by (auto simp: dcmp_def Compare_def)

lemma dcmp_zero: "dcmp it = 0 \<longleftrightarrow> entry_key (delta_Entry it) = base_key it"
  by (auto simp: dcmp_def Compare_def)

lemma dcmp_neg: "dcmp it < 0 \<longleftrightarrow>
    (if forward it then entry_key (delta_Entry it) < base_key it
     else base_key it < entry_key (delta_Entry it))"
  by (auto simp: dcmp_def Compare_def)

lemma dcmp_le: "dcmp it \<le> 0 \<longleftrightarrow>
    (if forward it then entry_key (delta_Entry it) \<le> base_key it
     else base_key it \<le> entry_key (delta_Entry it))"
  by (auto simp: dcmp_def Compare_def)

lemma UpdateCurrent_invariant: "invariant (UpdateCurrent it)"
proof (induction it rule: UpdateCurrent_induct2)
  case (both_invalid it)
  then show ?case
    by (simp add: UC_both_invalid invariant_def BaseValid_def DeltaValid_def)
next
  case (base_invalid_delete it)
  then show ?case by (simp add: UC_base_invalid_delete)
next
  case (base_invalid_live it)
  then show ?case
    by (simp add: UC_base_invalid_live invariant_def BaseValid_def DeltaValid_def)
next
  case (delta_invalid it)
  then show ?case
    by (simp add: UC_delta_invalid invariant_def BaseValid_def DeltaValid_def)
next
  case (base_first it)
  then show ?case
    by (auto simp: UC_base_first invariant_def dcmp_pos BaseValid_def DeltaValid_def
          delta_Entry_def base_key_def split: if_splits)
next
  case (delta_first_live it)
  then show ?case
    by (auto simp: UC_delta_first_live invariant_def dcmp_le dcmp_zero BaseValid_def DeltaValid_def
          delta_Entry_def base_key_def split: if_splits)
next
  case (delta_first_delete it)
  then show ?case by (simp add: UC_delta_first_delete)
next
  case (equal_delete it)
  then show ?case by (simp add: UC_equal_delete)
qed

lemma takeWhile_prefix_holds: "i < length (takeWhile P xs) \<Longrightarrow> P (xs ! i)"
  by (metis nth_mem set_takeWhileD takeWhile_nth)

lemma rcnt_prev: "c \<le> n \<Longrightarrow> rcnt n (if c = 0 then n else c - 1) = c"
  by (auto simp: rcnt_def)

lemma rpos_le: "c \<le> n \<Longrightarrow> (if c = 0 then n else c - 1) \<le> (n::nat)"
  by auto

lemma sorted_map_nth_less:
  fixes kf :: "'a \<Rightarrow> string"
  shows "sorted_wrt (<) (map kf xs) \<Longrightarrow> i < j \<Longrightarrow> j < length xs \<Longrightarrow> kf (xs ! i) < kf (xs ! j)"
  using sorted_wrt_nth_less[of "(<)" "map kf xs" i j] by simp

lemma sorted_map_nth_le:
  fixes kf :: "'a \<Rightarrow> string"
  shows "sorted_wrt (<) (map kf xs) \<Longrightarrow> i \<le> j \<Longrightarrow> j < length xs \<Longrightarrow> kf (xs ! i) \<le> kf (xs ! j)"
  using sorted_map_nth_less[of kf xs i j] by (cases "i = j") auto

lemma it_seek_cut:
  assumes "sorted_wrt (<) (map kf xs)"
  shows "is_cut (map kf xs) (\<lambda>x. k \<le> x) (it_seek kf xs k)"
proof -
  let ?p = "length (takeWhile (\<lambda>e. kf e < k) xs)"
  have le: "?p \<le> length xs" by (rule length_takeWhile_le)
  have "(k \<le> kf (xs ! i)) \<longleftrightarrow> ?p \<le> i" if i: "i < length xs" for i
  proof
    assume "k \<le> kf (xs ! i)"
    then show "?p \<le> i" using takeWhile_prefix_holds[of i "\<lambda>e. kf e < k" xs] by force
  next
    assume pi: "?p \<le> i"
    with i have "?p < length xs" by simp
    then have "\<not> kf (xs ! ?p) < k" by (rule nth_length_takeWhile)
    moreover have "kf (xs ! ?p) \<le> kf (xs ! i)"
      using assms pi i by (rule sorted_map_nth_le)
    ultimately show "k \<le> kf (xs ! i)" by simp
  qed
  with le show ?thesis by (simp add: is_cut_def it_seek_def)
qed

lemma it_seek_for_prev_rcut:
  assumes "sorted_wrt (<) (map kf xs)"
  shows "is_rcut (map kf xs) (\<lambda>x. x \<le> k) (it_seek_for_prev kf xs k)"
proof -
  let ?c = "length (takeWhile (\<lambda>e. kf e \<le> k) xs)"
  let ?p = "it_seek_for_prev kf xs k"
  have le: "?c \<le> length xs" by (rule length_takeWhile_le)
  have pdef: "?p = (if ?c = 0 then length xs else ?c - 1)" by (simp add: it_seek_for_prev_def Let_def)
  have rc: "rcnt (length xs) ?p = ?c"
    unfolding it_seek_for_prev_def Let_def by (rule rcnt_prev[OF le])
  have "(kf (xs ! i) \<le> k) \<longleftrightarrow> i < ?c" if i: "i < length xs" for i
  proof
    assume a: "kf (xs ! i) \<le> k"
    show "i < ?c"
    proof (rule ccontr)
      assume "\<not> i < ?c"
      then have ci: "?c \<le> i" by simp
      with i have "?c < length xs" by simp
      then have n: "\<not> kf (xs ! ?c) \<le> k" by (rule nth_length_takeWhile)
      have "kf (xs ! ?c) \<le> kf (xs ! i)"
        using assms ci i by (rule sorted_map_nth_le)
      with a n show False by simp
    qed
  next
    assume "i < ?c"
    then show "kf (xs ! i) \<le> k" by (rule takeWhile_prefix_holds)
  qed
  moreover have "?p \<le> length xs"
    unfolding it_seek_for_prev_def Let_def by (rule rpos_le[OF le])
  ultimately show ?thesis by (simp add: is_rcut_def rc)
qed

lemma is_cut_first: "is_cut ks (\<lambda>x. True) 0"
  by (simp add: is_cut_def)

lemma is_rcut_last: "is_rcut (map kf xs) (\<lambda>x. True) (it_seek_to_last xs)"
  by (auto simp: is_rcut_def it_seek_to_last_def rcnt_def)

lemma is_cut_shrink:
  assumes "sorted_wrt (<) ks" "is_cut ks A p" "\<And>k. B k \<Longrightarrow> A k" "upc B"
    "p < length ks \<Longrightarrow> B (ks ! p)"
  shows "is_cut ks B p"
proof -
  have "B (ks ! a) \<longleftrightarrow> p \<le> a" if a: "a < length ks" for a
  proof
    assume "B (ks ! a)"
    then have "A (ks ! a)" by (rule assms(3))
    with assms(2) a show "p \<le> a" by (simp add: is_cut_def)
  next
    assume pa: "p \<le> a"
    with a have "p < length ks" by simp
    then have "B (ks ! p)" by (rule assms(5))
    moreover have "ks ! p \<le> ks ! a"
      using sorted_map_nth_le[of "\<lambda>x. x" ks p a] assms(1) pa a by simp
    ultimately show "B (ks ! a)" using assms(4) by (auto simp: upc_def)
  qed
  with assms(2) show ?thesis by (simp add: is_cut_def)
qed

lemma is_cut_Suc:
  assumes "sorted_wrt (<) ks" "p < length ks"
  shows "is_cut ks (\<lambda>k. ks ! p < k) (Suc p)"
proof -
  have "ks ! p < ks ! a \<longleftrightarrow> Suc p \<le> a" if a: "a < length ks" for a
  proof
    assume l: "ks ! p < ks ! a"
    show "Suc p \<le> a"
    proof (rule ccontr)
      assume "\<not> Suc p \<le> a"
      then have "a \<le> p" by simp
      then have "ks ! a \<le> ks ! p"
        using sorted_map_nth_le[of "\<lambda>x. x" ks a p] assms by simp
      with l show False by simp
    qed
  next
    assume "Suc p \<le> a"
    then have "p < a" by simp
    then show "ks ! p < ks ! a"
      using sorted_map_nth_less[of "\<lambda>x. x" ks p a] assms(1) a by simp
  qed
  with assms(2) show ?thesis by (simp add: is_cut_def)
qed

lemma is_cut_self:
  assumes "sorted_wrt (<) ks" "p < length ks"
  shows "is_cut ks (\<lambda>k. ks ! p \<le> k) p"
proof -
  have "ks ! p \<le> ks ! a \<longleftrightarrow> p \<le> a" if a: "a < length ks" for a
  proof
    assume l: "ks ! p \<le> ks ! a"
    show "p \<le> a"
    proof (rule ccontr)
      assume "\<not> p \<le> a"
      then have "a < p" by simp
      then have "ks ! a < ks ! p"
        using sorted_map_nth_less[of "\<lambda>x. x" ks a p] assms by simp
      with l show False by simp
    qed
  next
    assume "p \<le> a"
    then show "ks ! p \<le> ks ! a"
      using sorted_map_nth_le[of "\<lambda>x. x" ks p a] assms(1) a by simp
  qed
  with assms(2) show ?thesis by (simp add: is_cut_def)
qed

lemma is_cut_at: "is_cut ks A p \<Longrightarrow> p < length ks \<Longrightarrow> A (ks ! p)"
  by (simp add: is_cut_def)

lemma is_cut_mem:
  assumes "sorted_wrt (<) ks" "is_cut ks A p" "x \<in> set ks" "A x"
  shows "p < length ks \<and> ks ! p \<le> x"
proof -
  from assms(3) obtain a where a: "a < length ks" "ks ! a = x" by (auto simp: in_set_conv_nth)
  with assms(2,4) have pa: "p \<le> a" by (auto simp: is_cut_def)
  with a have "ks ! p \<le> ks ! a"
    using sorted_map_nth_le[of "\<lambda>x. x" ks p a] assms(1) by simp
  with a pa show ?thesis by simp
qed

lemma is_cut_unique:
  assumes "is_cut ks A p" "is_cut ks A q"
  shows "p = q"
proof -
  have "\<not> a < b" if "is_cut ks A a" "is_cut ks A b" for a b
  proof
    assume ab: "a < b"
    with that(2) have al: "a < length ks" by (simp add: is_cut_def)
    with that(1) have "A (ks ! a)" by (simp add: is_cut_def)
    moreover from that(2) al ab have "\<not> A (ks ! a)" by (simp add: is_cut_def)
    ultimately show False by simp
  qed
  from this[OF assms] this[OF assms(2,1)] show ?thesis by simp
qed

lemma upc_lt [simp]: "upc (\<lambda>k. d < k)" and upc_le [simp]: "upc (\<lambda>k. d \<le> k)"
  and upc_True [simp]: "upc (\<lambda>k. True)"
  by (auto simp: upc_def)

lemma BaseValid_iff: "BaseValid it \<longleftrightarrow> base_pos it < length (bkeys it)"
  by (simp add: BaseValid_def it_valid_def bkeys_def)

lemma DeltaValid_iff: "DeltaValid it \<longleftrightarrow> delta_pos it < length (dkeys it)"
  by (simp add: DeltaValid_def it_valid_def dkeys_def)

lemma base_key_nth: "BaseValid it \<Longrightarrow> base_key it = bkeys it ! base_pos it"
  by (simp add: BaseValid_def it_valid_def bkeys_def base_key_def)

lemma delta_key_nth: "DeltaValid it \<Longrightarrow> entry_key (delta_Entry it) = dkeys it ! delta_pos it"
  by (simp add: DeltaValid_def it_valid_def dkeys_def delta_Entry_def)

lemma vis_cases: "vis it v \<Longrightarrow> v \<in> set (dkeys it) \<or> (v \<in> set (bkeys it) \<and> v \<notin> set (dkeys it))"
  by (auto simp: vis_def visible_def dkeys_def bkeys_def)

lemma vis_delta_live:
  "DeltaValid it \<Longrightarrow> \<not> is_delete (delta_Entry it) \<Longrightarrow> vis it (dkeys it ! delta_pos it)"
  by (auto simp: vis_def visible_def dkeys_def DeltaValid_def it_valid_def delta_Entry_def
      intro!: bexI[of _ "delta_items it ! delta_pos it"])

lemma vis_delta_dead:
  assumes "DeltaValid it" "is_delete (delta_Entry it)" "sorted_wrt (<) (dkeys it)"
  shows "\<not> vis it (dkeys it ! delta_pos it)"
proof
  let ?j = "delta_pos it"
  assume v: "vis it (dkeys it ! ?j)"
  from assms(1) have j: "?j < length (delta_items it)" by (simp add: DeltaValid_def it_valid_def)
  then have "dkeys it ! ?j \<in> set (dkeys it)" by (simp add: dkeys_def)
  with v obtain e where e: "e \<in> set (delta_items it)" "entry_key e = dkeys it ! ?j" "\<not> is_delete e"
    by (auto simp: vis_def visible_def dkeys_def)
  then obtain a where a: "a < length (delta_items it)" "delta_items it ! a = e"
    by (auto simp: in_set_conv_nth)
  from assms(3) have "distinct (dkeys it)" by (simp add: strict_sorted_iff)
  moreover have "dkeys it ! a = dkeys it ! ?j" using a e(2) j by (simp add: dkeys_def)
  moreover have "a < length (dkeys it)" "?j < length (dkeys it)" using a j by (simp_all add: dkeys_def)
  ultimately have "a = ?j" by (simp add: nth_eq_iff_index_eq)
  with a e(3) assms(2) show False by (simp add: delta_Entry_def)
qed

lemma vis_base: "BaseValid it \<Longrightarrow> bkeys it ! base_pos it \<notin> set (dkeys it) \<Longrightarrow>
    vis it (bkeys it ! base_pos it)"
  by (auto simp: vis_def visible_def dkeys_def bkeys_def BaseValid_def it_valid_def)

lemma Fcut_lower_bound:
  assumes "wf_items it" "Fcut it A" "vis it v" "A v"
  shows "(DeltaValid it \<and> dkeys it ! delta_pos it \<le> v) \<or>
         (BaseValid it \<and> bkeys it ! base_pos it \<le> v \<and> v \<notin> set (dkeys it))"
proof -
  from vis_cases[OF assms(3)] show ?thesis
  proof
    assume "v \<in> set (dkeys it)"
    with assms have "delta_pos it < length (dkeys it) \<and> dkeys it ! delta_pos it \<le> v"
      by (intro is_cut_mem[where A = A]) (simp_all add: wf_items_def Fcut_def)
    then show ?thesis by (simp add: DeltaValid_iff)
  next
    assume a: "v \<in> set (bkeys it) \<and> v \<notin> set (dkeys it)"
    with assms have "base_pos it < length (bkeys it) \<and> bkeys it ! base_pos it \<le> v"
      by (intro is_cut_mem[where A = A]) (simp_all add: wf_items_def Fcut_def)
    with a show ?thesis by (simp add: BaseValid_iff)
  qed
qed

lemma Fcut_not_mem_base:
  "wf_items it \<Longrightarrow> Fcut it A \<Longrightarrow> \<not> BaseValid it \<Longrightarrow> A v \<Longrightarrow> v \<notin> set (bkeys it)"
  using is_cut_mem[of "bkeys it" A "base_pos it" v]
  by (auto simp: wf_items_def Fcut_def BaseValid_iff)

lemma Fcut_not_mem_delta:
  "wf_items it \<Longrightarrow> Fcut it A \<Longrightarrow> \<not> DeltaValid it \<Longrightarrow> A v \<Longrightarrow> v \<notin> set (dkeys it)"
  using is_cut_mem[of "dkeys it" A "delta_pos it" v]
  by (auto simp: wf_items_def Fcut_def DeltaValid_iff)

lemma Fcut_A_base: "Fcut it A \<Longrightarrow> BaseValid it \<Longrightarrow> A (bkeys it ! base_pos it)"
  by (simp add: Fcut_def BaseValid_iff is_cut_at)

lemma Fcut_A_delta: "Fcut it A \<Longrightarrow> DeltaValid it \<Longrightarrow> A (dkeys it ! delta_pos it)"
  by (simp add: Fcut_def DeltaValid_iff is_cut_at)

text \<open>Moving the cut to a new threshold predicate without passing any element.\<close>

lemma Fcut_shrink:
  assumes "wf_items it" "Fcut it A" "upc B" "\<And>k. B k \<Longrightarrow> A k"
    "BaseValid it \<Longrightarrow> B (bkeys it ! base_pos it)"
    "DeltaValid it \<Longrightarrow> B (dkeys it ! delta_pos it)"
  shows "Fcut it B"
  using assms
  by (auto simp: Fcut_def wf_items_def BaseValid_iff DeltaValid_iff intro!: is_cut_shrink[where A = A and B = B])

lemma upcD: "upc A \<Longrightarrow> A a \<Longrightarrow> a \<le> b \<Longrightarrow> A b"
  by (auto simp: upc_def)

lemma upcD_less: "upc A \<Longrightarrow> A a \<Longrightarrow> a < b \<Longrightarrow> A b"
  by (rule upcD[where a = a]) simp_all

lemma fwd_AdvanceDelta:
  "forward it \<Longrightarrow> DeltaValid it \<Longrightarrow>
   AdvanceDelta (it\<lparr>equal_keys := b\<rparr>) = it\<lparr>equal_keys := b, delta_pos := Suc (delta_pos it)\<rparr>"
  by (simp add: AdvanceDelta_def it_next_def DeltaValid_def it_valid_def)

lemma fwd_AdvanceBase_Delta:
  "forward it \<Longrightarrow> DeltaValid it \<Longrightarrow> BaseValid it \<Longrightarrow>
   AdvanceBase (AdvanceDelta (it\<lparr>equal_keys := b\<rparr>)) =
     it\<lparr>equal_keys := b, delta_pos := Suc (delta_pos it), base_pos := Suc (base_pos it)\<rparr>"
  by (simp add: AdvanceDelta_def AdvanceBase_def it_next_def DeltaValid_def BaseValid_def it_valid_def)

lemma fpost_transfer:
  assumes "fpost it' S' r" "base_items it' = base_items it" "delta_items it' = delta_items it" "S' = S"
  shows "fpost it S r"
  using assms by (simp add: fpost_def)

lemma Fcut_skip_delta:
  assumes wf: "wf_items it" and fc: "Fcut it A" and up: "upc A" and dv: "DeltaValid it"
    and lt: "BaseValid it \<Longrightarrow> dkeys it ! delta_pos it < bkeys it ! base_pos it"
  shows "Fcut (it\<lparr>equal_keys := b, delta_pos := Suc (delta_pos it)\<rparr>) (\<lambda>k. dkeys it ! delta_pos it < k)"
proof -
  let ?dk = "dkeys it ! delta_pos it"
  have Adk: "A ?dk" using fc dv by (rule Fcut_A_delta)
  have sub: "A k" if "?dk < k" for k using up Adk that by (rule upcD_less)
  have "is_cut (bkeys it) (\<lambda>k. ?dk < k) (base_pos it)"
  proof (rule is_cut_shrink[where A = A])
    show "sorted_wrt (<) (bkeys it)" using wf by (simp add: wf_items_def)
    show "is_cut (bkeys it) A (base_pos it)" using fc by (simp add: Fcut_def)
    show "A k" if "?dk < k" for k by (rule sub[OF that])
    show "upc (\<lambda>k. ?dk < k)" by simp
    show "?dk < bkeys it ! base_pos it" if "base_pos it < length (bkeys it)"
      using lt that by (simp add: BaseValid_iff)
  qed
  moreover have "is_cut (dkeys it) (\<lambda>k. ?dk < k) (Suc (delta_pos it))"
    using wf dv by (intro is_cut_Suc) (auto simp: wf_items_def DeltaValid_iff)
  ultimately show ?thesis using fc by (simp add: Fcut_def bkeys_def dkeys_def)
qed

lemma Fcut_skip_both:
  assumes wf: "wf_items it" and fc: "Fcut it A" and dv: "DeltaValid it" and bv: "BaseValid it"
    and eq: "dkeys it ! delta_pos it = bkeys it ! base_pos it"
  shows "Fcut (it\<lparr>equal_keys := b, delta_pos := Suc (delta_pos it), base_pos := Suc (base_pos it)\<rparr>)
           (\<lambda>k. dkeys it ! delta_pos it < k)"
proof -
  let ?dk = "dkeys it ! delta_pos it"
  have "is_cut (bkeys it) (\<lambda>k. bkeys it ! base_pos it < k) (Suc (base_pos it))"
    using wf bv by (intro is_cut_Suc) (auto simp: wf_items_def BaseValid_iff)
  moreover have "is_cut (dkeys it) (\<lambda>k. ?dk < k) (Suc (delta_pos it))"
    using wf dv by (intro is_cut_Suc) (auto simp: wf_items_def DeltaValid_iff)
  ultimately show ?thesis using fc eq by (simp add: Fcut_def bkeys_def dkeys_def)
qed

lemma skip_set_eq:
  assumes wf: "wf_items it" and fc: "Fcut it A" and up: "upc A" and dv: "DeltaValid it"
    and del: "is_delete (delta_Entry it)"
    and le: "BaseValid it \<Longrightarrow> dkeys it ! delta_pos it \<le> bkeys it ! base_pos it"
  shows "{v. vis it v \<and> dkeys it ! delta_pos it < v} = {v. vis it v \<and> A v}"
proof -
  let ?dk = "dkeys it ! delta_pos it"
  have Adk: "A ?dk" using fc dv by (rule Fcut_A_delta)
  have nv: "\<not> vis it ?dk" using dv del wf by (intro vis_delta_dead) (simp_all add: wf_items_def)
  have mem: "?dk \<in> set (dkeys it)" using dv by (simp add: DeltaValid_iff)
  have "?dk < v" if v: "vis it v" "A v" for v
  proof -
    from Fcut_lower_bound[OF wf fc v] have "?dk \<le> v \<and> v \<noteq> ?dk"
    proof
      assume "DeltaValid it \<and> ?dk \<le> v"
      with nv v show ?thesis by auto
    next
      assume a: "BaseValid it \<and> bkeys it ! base_pos it \<le> v \<and> v \<notin> set (dkeys it)"
      with le have "?dk \<le> v" by auto
      with a mem show ?thesis by auto
    qed
    then show ?thesis by auto
  qed
  moreover have "A v" if "?dk < v" for v using up Adk that by (rule upcD_less)
  ultimately show ?thesis by auto
qed

lemma UC_forward:
  "wf_items it \<Longrightarrow> upc A \<Longrightarrow> Fcut it A \<Longrightarrow> fpost it {v. vis it v \<and> A v} (UpdateCurrent it)"
proof (induction it arbitrary: A rule: UpdateCurrent_induct2)
  case (both_invalid it)
  have "{v. vis it v \<and> A v} = {}"
    using Fcut_lower_bound[OF both_invalid(3,5)] both_invalid(1,2) by auto
  then show ?case using both_invalid(1,2)
    by (simp add: UC_both_invalid[OF both_invalid(1,2)] fpost_def BaseValid_def DeltaValid_def)
next
  case (base_invalid_delete it)
  note c = base_invalid_delete
  have fw: "forward it" using c(7) by (simp add: Fcut_def)
  let ?it' = "it\<lparr>equal_keys := False, delta_pos := Suc (delta_pos it)\<rparr>"
  let ?A' = "\<lambda>k. dkeys it ! delta_pos it < k"
  have "Fcut ?it' ?A'" using c(5,7,6,2) c(1) by (intro Fcut_skip_delta) auto
  moreover have "wf_items ?it'" using c(5) by (simp add: wf_items_def bkeys_def dkeys_def)
  ultimately have "fpost ?it' {v. vis ?it' v \<and> ?A' v} (UpdateCurrent ?it')"
    using c(4)[of ?A'] by (simp add: fwd_AdvanceDelta[OF fw c(2)])
  moreover have "{v. vis ?it' v \<and> ?A' v} = {v. vis it v \<and> A v}"
    using skip_set_eq[OF c(5,7,6,2,3)] c(1) by (simp add: vis_def)
  ultimately show ?case
    by (simp add: UC_base_invalid_delete[OF c(1,2,3)] fwd_AdvanceDelta[OF fw c(2)] fpost_def)
next
  case (base_invalid_live it)
  note c = base_invalid_live
  let ?dk = "dkeys it ! delta_pos it"
  let ?r = "it\<lparr>equal_keys := False, current_at_base := False\<rparr>"
  have Adk: "A ?dk" using c(6,2) by (rule Fcut_A_delta)
  have mem: "?dk \<in> set (dkeys it)" using c(2) by (simp add: DeltaValid_iff)
  have "vis it ?dk" using c(2,3) by (rule vis_delta_live)
  moreover have "\<forall>v. vis it v \<and> A v \<longrightarrow> ?dk \<le> v"
    using Fcut_lower_bound[OF c(4,6)] c(1) by auto
  moreover have "Fcut it (\<lambda>k. ?dk \<le> k)"
    using c(4,6)
  proof (rule Fcut_shrink)
    show "A k" if "?dk \<le> k" for k using c(5) Adk that by (rule upcD)
  qed (auto simp: c(1))
  moreover have "?dk \<notin> set (bkeys it)" using c(4,6,1) Adk by (rule Fcut_not_mem_base)
  ultimately have "?dk \<in> {v. vis it v \<and> A v} \<and> (\<forall>v\<in>{v. vis it v \<and> A v}. ?dk \<le> v) \<and> Fstate ?r ?dk"
    using Adk mem by (simp add: Fstate_def Fcut_def bkeys_def dkeys_def)
  then show ?case
    unfolding UC_base_invalid_live[OF c(1,2,3)] fpost_def by (intro conjI disjI1 bexI[of _ ?dk]) auto
next
  case (delta_invalid it)
  note c = delta_invalid
  let ?bk = "bkeys it ! base_pos it"
  let ?r = "it\<lparr>equal_keys := False, current_at_base := True\<rparr>"
  have Abk: "A ?bk" using c(5,1) by (rule Fcut_A_base)
  have nmem: "?bk \<notin> set (dkeys it)" using c(3,5,2) Abk by (rule Fcut_not_mem_delta)
  have "vis it ?bk" using c(1) nmem by (rule vis_base)
  moreover have "\<forall>v. vis it v \<and> A v \<longrightarrow> ?bk \<le> v"
    using Fcut_lower_bound[OF c(3,5)] c(2) by auto
  moreover have "Fcut it (\<lambda>k. ?bk \<le> k)"
    using c(3,5)
  proof (rule Fcut_shrink)
    show "A k" if "?bk \<le> k" for k using c(4) Abk that by (rule upcD)
  qed (auto simp: c(2))
  ultimately have "?bk \<in> {v. vis it v \<and> A v} \<and> (\<forall>v\<in>{v. vis it v \<and> A v}. ?bk \<le> v) \<and> Fstate ?r ?bk"
    using Abk nmem by (simp add: Fstate_def Fcut_def bkeys_def dkeys_def)
  then show ?case
    unfolding UC_delta_invalid[OF c(1,2)] fpost_def by (intro conjI disjI1 bexI[of _ ?bk]) auto
next
  case (base_first it)
  note c = base_first
  have fw: "forward it" using c(6) by (simp add: Fcut_def)
  let ?bk = "bkeys it ! base_pos it"
  let ?dk = "dkeys it ! delta_pos it"
  let ?r = "it\<lparr>equal_keys := False, current_at_base := True\<rparr>"
  have lt: "?bk < ?dk" using c(3) fw by (simp add: dcmp_pos base_key_nth[OF c(1)] delta_key_nth[OF c(2)])
  have Abk: "A ?bk" using c(6,1) by (rule Fcut_A_base)
  have nmem: "?bk \<notin> set (dkeys it)"
    using is_cut_mem[of "dkeys it" A "delta_pos it" ?bk] c(4,6) Abk lt
    by (auto simp: wf_items_def Fcut_def)
  have "vis it ?bk" using c(1) nmem by (rule vis_base)
  moreover have "\<forall>v. vis it v \<and> A v \<longrightarrow> ?bk \<le> v"
    using Fcut_lower_bound[OF c(4,6)] lt by fastforce
  moreover have "Fcut it (\<lambda>k. ?bk \<le> k)"
    using c(4,6)
  proof (rule Fcut_shrink)
    show "A k" if "?bk \<le> k" for k using c(5) Abk that by (rule upcD)
  qed (use lt in auto)
  ultimately have "?bk \<in> {v. vis it v \<and> A v} \<and> (\<forall>v\<in>{v. vis it v \<and> A v}. ?bk \<le> v) \<and> Fstate ?r ?bk"
    using Abk nmem by (simp add: Fstate_def Fcut_def bkeys_def dkeys_def)
  then show ?case
    unfolding UC_base_first[OF c(1,2,3)] fpost_def by (intro conjI disjI1 bexI[of _ ?bk]) auto
next
  case (delta_first_live it)
  note c = delta_first_live
  have fw: "forward it" using c(7) by (simp add: Fcut_def)
  let ?bk = "bkeys it ! base_pos it"
  let ?dk = "dkeys it ! delta_pos it"
  let ?r = "it\<lparr>equal_keys := (dcmp it = 0), current_at_base := False\<rparr>"
  have le: "?dk \<le> ?bk" using c(3) fw by (simp add: dcmp_le base_key_nth[OF c(1)] delta_key_nth[OF c(2)])
  have z: "dcmp it = 0 \<longleftrightarrow> ?dk = ?bk" by (simp add: dcmp_zero base_key_nth[OF c(1)] delta_key_nth[OF c(2)])
  have Adk: "A ?dk" using c(7,2) by (rule Fcut_A_delta)
  have mem: "?dk \<in> set (dkeys it)" using c(2) by (simp add: DeltaValid_iff)
  have bmem: "?bk \<in> set (bkeys it)" using c(1) by (simp add: BaseValid_iff)
  have "vis it ?dk" using c(2,4) by (rule vis_delta_live)
  moreover have "\<forall>v. vis it v \<and> A v \<longrightarrow> ?dk \<le> v"
    using Fcut_lower_bound[OF c(5,7)] le by fastforce
  moreover have "Fcut it (\<lambda>k. ?dk \<le> k)"
    using c(5,7)
  proof (rule Fcut_shrink)
    show "A k" if "?dk \<le> k" for k using c(6) Adk that by (rule upcD)
  qed (use le in auto)
  moreover have "?dk \<in> set (bkeys it) \<longleftrightarrow> ?dk = ?bk"
    using is_cut_mem[of "bkeys it" A "base_pos it" ?dk] c(5,7) Adk le bmem
    by (auto simp: wf_items_def Fcut_def)
  ultimately have "?dk \<in> {v. vis it v \<and> A v} \<and> (\<forall>v\<in>{v. vis it v \<and> A v}. ?dk \<le> v) \<and> Fstate ?r ?dk"
    using Adk mem z by (simp add: Fstate_def Fcut_def bkeys_def dkeys_def)
  then show ?case
    unfolding UC_delta_first_live[OF c(1,2,3,4)] fpost_def by (intro conjI disjI1 bexI[of _ ?dk]) auto
next
  case (delta_first_delete it)
  note c = delta_first_delete
  have fw: "forward it" using c(8) by (simp add: Fcut_def)
  let ?it' = "it\<lparr>equal_keys := False, delta_pos := Suc (delta_pos it)\<rparr>"
  let ?A' = "\<lambda>k. dkeys it ! delta_pos it < k"
  have lt: "dkeys it ! delta_pos it < bkeys it ! base_pos it"
    using c(3) fw by (simp add: dcmp_neg base_key_nth[OF c(1)] delta_key_nth[OF c(2)])
  have "Fcut ?it' ?A'" using c(6,8,7,2) lt by (intro Fcut_skip_delta) auto
  moreover have "wf_items ?it'" using c(6) by (simp add: wf_items_def bkeys_def dkeys_def)
  ultimately have "fpost ?it' {v. vis ?it' v \<and> ?A' v} (UpdateCurrent ?it')"
    using c(5)[of ?A'] by (simp add: fwd_AdvanceDelta[OF fw c(2)])
  moreover have "{v. vis ?it' v \<and> ?A' v} = {v. vis it v \<and> A v}"
    using skip_set_eq[OF c(6,8,7,2,4)] lt by (simp add: vis_def)
  ultimately show ?case
    by (simp add: UC_delta_first_delete[OF c(1,2,3,4)] fwd_AdvanceDelta[OF fw c(2)] fpost_def)
next
  case (equal_delete it)
  note c = equal_delete
  have fw: "forward it" using c(8) by (simp add: Fcut_def)
  let ?it' = "it\<lparr>equal_keys := True, delta_pos := Suc (delta_pos it), base_pos := Suc (base_pos it)\<rparr>"
  let ?A' = "\<lambda>k. dkeys it ! delta_pos it < k"
  have eq: "dkeys it ! delta_pos it = bkeys it ! base_pos it"
    using c(3) by (simp add: dcmp_zero base_key_nth[OF c(1)] delta_key_nth[OF c(2)])
  have "Fcut ?it' ?A'" using c(6,8,2,1) eq by (rule Fcut_skip_both)
  moreover have "wf_items ?it'" using c(6) by (simp add: wf_items_def bkeys_def dkeys_def)
  ultimately have "fpost ?it' {v. vis ?it' v \<and> ?A' v} (UpdateCurrent ?it')"
    using c(5)[of ?A'] by (simp add: fwd_AdvanceBase_Delta[OF fw c(2,1)])
  moreover have "{v. vis ?it' v \<and> ?A' v} = {v. vis it v \<and> A v}"
    using skip_set_eq[OF c(6,8,7,2,4)] eq by (simp add: vis_def)
  ultimately show ?case
    by (simp add: UC_equal_delete[OF c(1,2,3,4)] fwd_AdvanceBase_Delta[OF fw c(2,1)] fpost_def)
qed

lemma dnc_lt [simp]: "dnc (\<lambda>k. k < d)" and dnc_le [simp]: "dnc (\<lambda>k. k \<le> d)"
  and dnc_True [simp]: "dnc (\<lambda>k. True)"
  by (auto simp: dnc_def)

lemma dncD: "dnc B \<Longrightarrow> B b \<Longrightarrow> a \<le> b \<Longrightarrow> B a"
  by (auto simp: dnc_def)

lemma dncD_less: "dnc B \<Longrightarrow> B b \<Longrightarrow> a < b \<Longrightarrow> B a"
  by (rule dncD[where b = b]) simp_all

lemma rcnt_less_iff: "p \<le> n \<Longrightarrow> a < n \<Longrightarrow> a < rcnt n p \<longleftrightarrow> (p < n \<and> a \<le> p)"
  by (auto simp: rcnt_def)

lemma is_rcut_iff:
  "is_rcut ks B p \<longleftrightarrow> p \<le> length ks \<and> (\<forall>i<length ks. B (ks ! i) \<longleftrightarrow> (p < length ks \<and> i \<le> p))"
  by (auto simp: is_rcut_def rcnt_def)

lemma is_rcut_shrink:
  assumes "sorted_wrt (<) ks" "is_rcut ks A p" "\<And>k. B k \<Longrightarrow> A k" "dnc B"
    "p < length ks \<Longrightarrow> B (ks ! p)"
  shows "is_rcut ks B p"
proof -
  have "B (ks ! a) \<longleftrightarrow> (p < length ks \<and> a \<le> p)" if a: "a < length ks" for a
  proof
    assume "B (ks ! a)"
    then have "A (ks ! a)" by (rule assms(3))
    with assms(2) a show "p < length ks \<and> a \<le> p" by (simp add: is_rcut_iff)
  next
    assume pa: "p < length ks \<and> a \<le> p"
    then have "B (ks ! p)" using assms(5) by simp
    moreover have "ks ! a \<le> ks ! p"
      using sorted_map_nth_le[of "\<lambda>x. x" ks a p] assms(1) pa by simp
    ultimately show "B (ks ! a)" using assms(4) by (auto simp: dnc_def)
  qed
  with assms(2) show ?thesis by (simp add: is_rcut_iff)
qed

lemma is_rcut_prev:
  assumes "sorted_wrt (<) ks" "p < length ks"
  shows "is_rcut ks (\<lambda>k. k < ks ! p) (if p = 0 then length ks else p - 1)"
proof -
  let ?q = "if p = 0 then length ks else p - 1"
  have "ks ! a < ks ! p \<longleftrightarrow> (?q < length ks \<and> a \<le> ?q)" if a: "a < length ks" for a
  proof -
    have "ks ! a < ks ! p \<longleftrightarrow> a < p"
    proof
      assume l: "ks ! a < ks ! p"
      show "a < p"
      proof (rule ccontr)
        assume "\<not> a < p"
        then have "p \<le> a" by simp
        then have "ks ! p \<le> ks ! a"
          using sorted_map_nth_le[of "\<lambda>x. x" ks p a] assms a by simp
        with l show False by simp
      qed
    next
      assume "a < p"
      then show "ks ! a < ks ! p"
        using sorted_map_nth_less[of "\<lambda>x. x" ks a p] assms by simp
    qed
    also have "a < p \<longleftrightarrow> (?q < length ks \<and> a \<le> ?q)" using assms(2) by auto
    finally show ?thesis .
  qed
  moreover have "?q \<le> length ks" using assms(2) by auto
  ultimately show ?thesis unfolding is_rcut_iff by blast
qed

lemma is_rcut_it_prev:
  fixes kf :: "'a \<Rightarrow> string"
  assumes "sorted_wrt (<) (map kf xs)" "p < length xs"
  shows "is_rcut (map kf xs) (\<lambda>k. k < map kf xs ! p) (it_prev xs p)"
proof -
  have "it_prev xs p = (if p = 0 then length (map kf xs) else p - 1)"
    using assms(2) by (simp add: it_prev_def)
  then show ?thesis using is_rcut_prev[of "map kf xs" p] assms by simp
qed

lemma is_rcut_self:
  assumes "sorted_wrt (<) ks" "p < length ks"
  shows "is_rcut ks (\<lambda>k. k \<le> ks ! p) p"
proof -
  have "ks ! a \<le> ks ! p \<longleftrightarrow> (p < length ks \<and> a \<le> p)" if a: "a < length ks" for a
  proof
    assume l: "ks ! a \<le> ks ! p"
    have "a \<le> p"
    proof (rule ccontr)
      assume "\<not> a \<le> p"
      then have "p < a" by simp
      then have "ks ! p < ks ! a"
        using sorted_map_nth_less[of "\<lambda>x. x" ks p a] assms a by simp
      with l show False by simp
    qed
    with assms(2) show "p < length ks \<and> a \<le> p" by simp
  next
    assume "p < length ks \<and> a \<le> p"
    then show "ks ! a \<le> ks ! p"
      using sorted_map_nth_le[of "\<lambda>x. x" ks a p] assms(1) by simp
  qed
  with assms(2) show ?thesis by (simp add: is_rcut_iff)
qed

lemma is_rcut_at: "is_rcut ks A p \<Longrightarrow> p < length ks \<Longrightarrow> A (ks ! p)"
  by (simp add: is_rcut_iff)

lemma is_rcut_mem:
  assumes "sorted_wrt (<) ks" "is_rcut ks A p" "x \<in> set ks" "A x"
  shows "p < length ks \<and> x \<le> ks ! p"
proof -
  from assms(3) obtain a where a: "a < length ks" "ks ! a = x" by (auto simp: in_set_conv_nth)
  with assms(2,4) have pa: "p < length ks \<and> a \<le> p" by (auto simp: is_rcut_iff)
  with a have "ks ! a \<le> ks ! p"
    using sorted_map_nth_le[of "\<lambda>x. x" ks a p] assms(1) by simp
  with a pa show ?thesis by simp
qed

lemma Rcut_upper_bound:
  assumes "wf_items it" "Rcut it A" "vis it v" "A v"
  shows "(DeltaValid it \<and> v \<le> dkeys it ! delta_pos it) \<or>
         (BaseValid it \<and> v \<le> bkeys it ! base_pos it \<and> v \<notin> set (dkeys it))"
proof -
  from vis_cases[OF assms(3)] show ?thesis
  proof
    assume "v \<in> set (dkeys it)"
    with assms have "delta_pos it < length (dkeys it) \<and> v \<le> dkeys it ! delta_pos it"
      by (intro is_rcut_mem[where A = A]) (simp_all add: wf_items_def Rcut_def)
    then show ?thesis by (simp add: DeltaValid_iff)
  next
    assume a: "v \<in> set (bkeys it) \<and> v \<notin> set (dkeys it)"
    with assms have "base_pos it < length (bkeys it) \<and> v \<le> bkeys it ! base_pos it"
      by (intro is_rcut_mem[where A = A]) (simp_all add: wf_items_def Rcut_def)
    with a show ?thesis by (simp add: BaseValid_iff)
  qed
qed

lemma Rcut_not_mem_base:
  "wf_items it \<Longrightarrow> Rcut it A \<Longrightarrow> \<not> BaseValid it \<Longrightarrow> A v \<Longrightarrow> v \<notin> set (bkeys it)"
  using is_rcut_mem[of "bkeys it" A "base_pos it" v]
  by (auto simp: wf_items_def Rcut_def BaseValid_iff)

lemma Rcut_not_mem_delta:
  "wf_items it \<Longrightarrow> Rcut it A \<Longrightarrow> \<not> DeltaValid it \<Longrightarrow> A v \<Longrightarrow> v \<notin> set (dkeys it)"
  using is_rcut_mem[of "dkeys it" A "delta_pos it" v]
  by (auto simp: wf_items_def Rcut_def DeltaValid_iff)

lemma Rcut_A_base: "Rcut it A \<Longrightarrow> BaseValid it \<Longrightarrow> A (bkeys it ! base_pos it)"
  by (simp add: Rcut_def BaseValid_iff is_rcut_at)

lemma Rcut_A_delta: "Rcut it A \<Longrightarrow> DeltaValid it \<Longrightarrow> A (dkeys it ! delta_pos it)"
  by (simp add: Rcut_def DeltaValid_iff is_rcut_at)

lemma Rcut_shrink:
  assumes "wf_items it" "Rcut it A" "dnc B" "\<And>k. B k \<Longrightarrow> A k"
    "BaseValid it \<Longrightarrow> B (bkeys it ! base_pos it)"
    "DeltaValid it \<Longrightarrow> B (dkeys it ! delta_pos it)"
  shows "Rcut it B"
  using assms
  by (auto simp: Rcut_def wf_items_def BaseValid_iff DeltaValid_iff intro!: is_rcut_shrink[where A = A and B = B])

lemma rev_AdvanceDelta:
  "\<not> forward it \<Longrightarrow> DeltaValid it \<Longrightarrow>
   AdvanceDelta (it\<lparr>equal_keys := b\<rparr>) =
     it\<lparr>equal_keys := b, delta_pos := it_prev (delta_items it) (delta_pos it)\<rparr>"
  by (simp add: AdvanceDelta_def)

lemma rev_AdvanceBase_Delta:
  "\<not> forward it \<Longrightarrow> DeltaValid it \<Longrightarrow> BaseValid it \<Longrightarrow>
   AdvanceBase (AdvanceDelta (it\<lparr>equal_keys := b\<rparr>)) =
     it\<lparr>equal_keys := b, delta_pos := it_prev (delta_items it) (delta_pos it),
        base_pos := it_prev (base_items it) (base_pos it)\<rparr>"
  by (simp add: AdvanceDelta_def AdvanceBase_def)

lemma Rcut_skip_delta:
  assumes wf: "wf_items it" and fc: "Rcut it A" and up: "dnc A" and dv: "DeltaValid it"
    and lt: "BaseValid it \<Longrightarrow> bkeys it ! base_pos it < dkeys it ! delta_pos it"
  shows "Rcut (it\<lparr>equal_keys := b, delta_pos := it_prev (delta_items it) (delta_pos it)\<rparr>)
          (\<lambda>k. k < dkeys it ! delta_pos it)"
proof -
  let ?dk = "dkeys it ! delta_pos it"
  have Adk: "A ?dk" using fc dv by (rule Rcut_A_delta)
  have sub: "A k" if "k < ?dk" for k using up Adk that by (rule dncD_less)
  have "is_rcut (bkeys it) (\<lambda>k. k < ?dk) (base_pos it)"
  proof (rule is_rcut_shrink[where A = A])
    show "sorted_wrt (<) (bkeys it)" using wf by (simp add: wf_items_def)
    show "is_rcut (bkeys it) A (base_pos it)" using fc by (simp add: Rcut_def)
    show "A k" if "k < ?dk" for k by (rule sub[OF that])
    show "dnc (\<lambda>k. k < ?dk)" by simp
    show "bkeys it ! base_pos it < ?dk" if "base_pos it < length (bkeys it)"
      using lt that by (simp add: BaseValid_iff)
  qed
  moreover have "is_rcut (dkeys it) (\<lambda>k. k < ?dk) (it_prev (delta_items it) (delta_pos it))"
    unfolding dkeys_def using wf dv
    by (intro is_rcut_it_prev) (auto simp: wf_items_def dkeys_def DeltaValid_def it_valid_def)
  ultimately show ?thesis using fc by (simp add: Rcut_def bkeys_def dkeys_def)
qed

lemma Rcut_skip_both:
  assumes wf: "wf_items it" and fc: "Rcut it A" and dv: "DeltaValid it" and bv: "BaseValid it"
    and eq: "dkeys it ! delta_pos it = bkeys it ! base_pos it"
  shows "Rcut (it\<lparr>equal_keys := b, delta_pos := it_prev (delta_items it) (delta_pos it),
        base_pos := it_prev (base_items it) (base_pos it)\<rparr>)
           (\<lambda>k. k < dkeys it ! delta_pos it)"
proof -
  let ?dk = "dkeys it ! delta_pos it"
  have "is_rcut (bkeys it) (\<lambda>k. k < bkeys it ! base_pos it) (it_prev (base_items it) (base_pos it))"
    unfolding bkeys_def using wf bv
    by (intro is_rcut_it_prev) (auto simp: wf_items_def bkeys_def BaseValid_def it_valid_def)
  moreover have "is_rcut (dkeys it) (\<lambda>k. k < ?dk) (it_prev (delta_items it) (delta_pos it))"
    unfolding dkeys_def using wf dv
    by (intro is_rcut_it_prev) (auto simp: wf_items_def dkeys_def DeltaValid_def it_valid_def)
  ultimately show ?thesis using fc eq by (simp add: Rcut_def bkeys_def dkeys_def)
qed

lemma rskip_set_eq:
  assumes wf: "wf_items it" and fc: "Rcut it A" and up: "dnc A" and dv: "DeltaValid it"
    and del: "is_delete (delta_Entry it)"
    and le: "BaseValid it \<Longrightarrow> bkeys it ! base_pos it \<le> dkeys it ! delta_pos it"
  shows "{v. vis it v \<and> v < dkeys it ! delta_pos it} = {v. vis it v \<and> A v}"
proof -
  let ?dk = "dkeys it ! delta_pos it"
  have Adk: "A ?dk" using fc dv by (rule Rcut_A_delta)
  have nv: "\<not> vis it ?dk" using dv del wf by (intro vis_delta_dead) (simp_all add: wf_items_def)
  have mem: "?dk \<in> set (dkeys it)" using dv by (simp add: DeltaValid_iff)
  have "v < ?dk" if v: "vis it v" "A v" for v
  proof -
    from Rcut_upper_bound[OF wf fc v] have "v \<le> ?dk \<and> v \<noteq> ?dk"
    proof
      assume "DeltaValid it \<and> v \<le> ?dk"
      with nv v show ?thesis by auto
    next
      assume a: "BaseValid it \<and> v \<le> bkeys it ! base_pos it \<and> v \<notin> set (dkeys it)"
      with le have "v \<le> ?dk" by auto
      with a mem show ?thesis by auto
    qed
    then show ?thesis by auto
  qed
  moreover have "A v" if "v < ?dk" for v using up Adk that by (rule dncD_less)
  ultimately show ?thesis by auto
qed

lemma UC_reverse:
  "wf_items it \<Longrightarrow> dnc A \<Longrightarrow> Rcut it A \<Longrightarrow> rpost it {v. vis it v \<and> A v} (UpdateCurrent it)"
proof (induction it arbitrary: A rule: UpdateCurrent_induct2)
  case (both_invalid it)
  have "{v. vis it v \<and> A v} = {}"
    using Rcut_upper_bound[OF both_invalid(3,5)] both_invalid(1,2) by auto
  then show ?case using both_invalid(1,2)
    by (simp add: UC_both_invalid[OF both_invalid(1,2)] rpost_def BaseValid_def DeltaValid_def)
next
  case (base_invalid_delete it)
  note c = base_invalid_delete
  have fw: "\<not> forward it" using c(7) by (simp add: Rcut_def)
  let ?it' = "it\<lparr>equal_keys := False, delta_pos := it_prev (delta_items it) (delta_pos it)\<rparr>"
  let ?A' = "\<lambda>k. k < dkeys it ! delta_pos it"
  have "Rcut ?it' ?A'" using c(5,7,6,2) c(1) by (intro Rcut_skip_delta) auto
  moreover have "wf_items ?it'" using c(5) by (simp add: wf_items_def bkeys_def dkeys_def)
  ultimately have "rpost ?it' {v. vis ?it' v \<and> ?A' v} (UpdateCurrent ?it')"
    using c(4)[of ?A'] by (simp add: rev_AdvanceDelta[OF fw c(2)])
  moreover have "{v. vis ?it' v \<and> ?A' v} = {v. vis it v \<and> A v}"
    using rskip_set_eq[OF c(5,7,6,2,3)] c(1) by (simp add: vis_def)
  ultimately show ?case
    by (simp add: UC_base_invalid_delete[OF c(1,2,3)] rev_AdvanceDelta[OF fw c(2)] rpost_def)
next
  case (base_invalid_live it)
  note c = base_invalid_live
  let ?dk = "dkeys it ! delta_pos it"
  let ?r = "it\<lparr>equal_keys := False, current_at_base := False\<rparr>"
  have Adk: "A ?dk" using c(6,2) by (rule Rcut_A_delta)
  have mem: "?dk \<in> set (dkeys it)" using c(2) by (simp add: DeltaValid_iff)
  have "vis it ?dk" using c(2,3) by (rule vis_delta_live)
  moreover have "\<forall>v. vis it v \<and> A v \<longrightarrow> v \<le> ?dk"
    using Rcut_upper_bound[OF c(4,6)] c(1) by auto
  moreover have "Rcut it (\<lambda>k. k \<le> ?dk)"
    using c(4,6)
  proof (rule Rcut_shrink)
    show "A k" if "k \<le> ?dk" for k using c(5) Adk that by (rule dncD)
  qed (auto simp: c(1))
  moreover have "?dk \<notin> set (bkeys it)" using c(4,6,1) Adk by (rule Rcut_not_mem_base)
  ultimately have "?dk \<in> {v. vis it v \<and> A v} \<and> (\<forall>v\<in>{v. vis it v \<and> A v}. v \<le> ?dk) \<and> Rstate ?r ?dk"
    using Adk mem by (simp add: Rstate_def Rcut_def bkeys_def dkeys_def)
  then show ?case
    unfolding UC_base_invalid_live[OF c(1,2,3)] rpost_def by (intro conjI disjI1 bexI[of _ ?dk]) auto
next
  case (delta_invalid it)
  note c = delta_invalid
  let ?bk = "bkeys it ! base_pos it"
  let ?r = "it\<lparr>equal_keys := False, current_at_base := True\<rparr>"
  have Abk: "A ?bk" using c(5,1) by (rule Rcut_A_base)
  have nmem: "?bk \<notin> set (dkeys it)" using c(3,5,2) Abk by (rule Rcut_not_mem_delta)
  have "vis it ?bk" using c(1) nmem by (rule vis_base)
  moreover have "\<forall>v. vis it v \<and> A v \<longrightarrow> v \<le> ?bk"
    using Rcut_upper_bound[OF c(3,5)] c(2) by auto
  moreover have "Rcut it (\<lambda>k. k \<le> ?bk)"
    using c(3,5)
  proof (rule Rcut_shrink)
    show "A k" if "k \<le> ?bk" for k using c(4) Abk that by (rule dncD)
  qed (auto simp: c(2))
  ultimately have "?bk \<in> {v. vis it v \<and> A v} \<and> (\<forall>v\<in>{v. vis it v \<and> A v}. v \<le> ?bk) \<and> Rstate ?r ?bk"
    using Abk nmem by (simp add: Rstate_def Rcut_def bkeys_def dkeys_def)
  then show ?case
    unfolding UC_delta_invalid[OF c(1,2)] rpost_def by (intro conjI disjI1 bexI[of _ ?bk]) auto
next
  case (base_first it)
  note c = base_first
  have fw: "\<not> forward it" using c(6) by (simp add: Rcut_def)
  let ?bk = "bkeys it ! base_pos it"
  let ?dk = "dkeys it ! delta_pos it"
  let ?r = "it\<lparr>equal_keys := False, current_at_base := True\<rparr>"
  have lt: "?dk < ?bk" using c(3) fw by (simp add: dcmp_pos base_key_nth[OF c(1)] delta_key_nth[OF c(2)])
  have Abk: "A ?bk" using c(6,1) by (rule Rcut_A_base)
  have nmem: "?bk \<notin> set (dkeys it)"
    using is_rcut_mem[of "dkeys it" A "delta_pos it" ?bk] c(4,6) Abk lt
    by (auto simp: wf_items_def Rcut_def)
  have "vis it ?bk" using c(1) nmem by (rule vis_base)
  moreover have "\<forall>v. vis it v \<and> A v \<longrightarrow> v \<le> ?bk"
    using Rcut_upper_bound[OF c(4,6)] lt by fastforce
  moreover have "Rcut it (\<lambda>k. k \<le> ?bk)"
    using c(4,6)
  proof (rule Rcut_shrink)
    show "A k" if "k \<le> ?bk" for k using c(5) Abk that by (rule dncD)
  qed (use lt in auto)
  ultimately have "?bk \<in> {v. vis it v \<and> A v} \<and> (\<forall>v\<in>{v. vis it v \<and> A v}. v \<le> ?bk) \<and> Rstate ?r ?bk"
    using Abk nmem by (simp add: Rstate_def Rcut_def bkeys_def dkeys_def)
  then show ?case
    unfolding UC_base_first[OF c(1,2,3)] rpost_def by (intro conjI disjI1 bexI[of _ ?bk]) auto
next
  case (delta_first_live it)
  note c = delta_first_live
  have fw: "\<not> forward it" using c(7) by (simp add: Rcut_def)
  let ?bk = "bkeys it ! base_pos it"
  let ?dk = "dkeys it ! delta_pos it"
  let ?r = "it\<lparr>equal_keys := (dcmp it = 0), current_at_base := False\<rparr>"
  have le: "?bk \<le> ?dk" using c(3) fw by (simp add: dcmp_le base_key_nth[OF c(1)] delta_key_nth[OF c(2)])
  have z: "dcmp it = 0 \<longleftrightarrow> ?dk = ?bk" by (simp add: dcmp_zero base_key_nth[OF c(1)] delta_key_nth[OF c(2)])
  have Adk: "A ?dk" using c(7,2) by (rule Rcut_A_delta)
  have mem: "?dk \<in> set (dkeys it)" using c(2) by (simp add: DeltaValid_iff)
  have bmem: "?bk \<in> set (bkeys it)" using c(1) by (simp add: BaseValid_iff)
  have "vis it ?dk" using c(2,4) by (rule vis_delta_live)
  moreover have "\<forall>v. vis it v \<and> A v \<longrightarrow> v \<le> ?dk"
    using Rcut_upper_bound[OF c(5,7)] le by fastforce
  moreover have "Rcut it (\<lambda>k. k \<le> ?dk)"
    using c(5,7)
  proof (rule Rcut_shrink)
    show "A k" if "k \<le> ?dk" for k using c(6) Adk that by (rule dncD)
  qed (use le in auto)
  moreover have "?dk \<in> set (bkeys it) \<longleftrightarrow> ?dk = ?bk"
    using is_rcut_mem[of "bkeys it" A "base_pos it" ?dk] c(5,7) Adk le bmem
    by (auto simp: wf_items_def Rcut_def)
  ultimately have "?dk \<in> {v. vis it v \<and> A v} \<and> (\<forall>v\<in>{v. vis it v \<and> A v}. v \<le> ?dk) \<and> Rstate ?r ?dk"
    using Adk mem z by (simp add: Rstate_def Rcut_def bkeys_def dkeys_def)
  then show ?case
    unfolding UC_delta_first_live[OF c(1,2,3,4)] rpost_def by (intro conjI disjI1 bexI[of _ ?dk]) auto
next
  case (delta_first_delete it)
  note c = delta_first_delete
  have fw: "\<not> forward it" using c(8) by (simp add: Rcut_def)
  let ?it' = "it\<lparr>equal_keys := False, delta_pos := it_prev (delta_items it) (delta_pos it)\<rparr>"
  let ?A' = "\<lambda>k. k < dkeys it ! delta_pos it"
  have lt: "bkeys it ! base_pos it < dkeys it ! delta_pos it"
    using c(3) fw by (simp add: dcmp_neg base_key_nth[OF c(1)] delta_key_nth[OF c(2)])
  have "Rcut ?it' ?A'" using c(6,8,7,2) lt by (intro Rcut_skip_delta) auto
  moreover have "wf_items ?it'" using c(6) by (simp add: wf_items_def bkeys_def dkeys_def)
  ultimately have "rpost ?it' {v. vis ?it' v \<and> ?A' v} (UpdateCurrent ?it')"
    using c(5)[of ?A'] by (simp add: rev_AdvanceDelta[OF fw c(2)])
  moreover have "{v. vis ?it' v \<and> ?A' v} = {v. vis it v \<and> A v}"
    using rskip_set_eq[OF c(6,8,7,2,4)] lt by (simp add: vis_def)
  ultimately show ?case
    by (simp add: UC_delta_first_delete[OF c(1,2,3,4)] rev_AdvanceDelta[OF fw c(2)] rpost_def)
next
  case (equal_delete it)
  note c = equal_delete
  have fw: "\<not> forward it" using c(8) by (simp add: Rcut_def)
  let ?it' = "it\<lparr>equal_keys := True, delta_pos := it_prev (delta_items it) (delta_pos it),
        base_pos := it_prev (base_items it) (base_pos it)\<rparr>"
  let ?A' = "\<lambda>k. k < dkeys it ! delta_pos it"
  have eq: "dkeys it ! delta_pos it = bkeys it ! base_pos it"
    using c(3) by (simp add: dcmp_zero base_key_nth[OF c(1)] delta_key_nth[OF c(2)])
  have "Rcut ?it' ?A'" using c(6,8,2,1) eq by (rule Rcut_skip_both)
  moreover have "wf_items ?it'" using c(6) by (simp add: wf_items_def bkeys_def dkeys_def)
  ultimately have "rpost ?it' {v. vis ?it' v \<and> ?A' v} (UpdateCurrent ?it')"
    using c(5)[of ?A'] by (simp add: rev_AdvanceBase_Delta[OF fw c(2,1)])
  moreover have "{v. vis ?it' v \<and> ?A' v} = {v. vis it v \<and> A v}"
    using rskip_set_eq[OF c(6,8,7,2,4)] eq by (simp add: vis_def)
  ultimately show ?case
    by (simp add: UC_equal_delete[OF c(1,2,3,4)] rev_AdvanceBase_Delta[OF fw c(2,1)] rpost_def)
qed

lemma it_prev_rprev: "p < length xs \<Longrightarrow> it_prev xs p = rprev (length xs) p"
  by (simp add: it_prev_def rprev_def)

lemma it_seek_to_last_rprev: "it_seek_to_last xs = rprev (length xs) (length xs)"
  by (auto simp: it_seek_to_last_def rprev_def)

lemma it_next_fnext: "p < length xs \<Longrightarrow> it_next xs p = fnext (length xs) p"
  by (simp add: it_next_def fnext_def)

lemma it_seek_to_first_fnext: "it_seek_to_first xs = fnext (length xs) (length xs)"
  by (simp add: it_seek_to_first_def fnext_def)

lemma cut_mem_eq:
  assumes "sorted_wrt (<) ks" "is_cut ks (\<lambda>k. x \<le> k) p" "x \<in> set ks"
  shows "p < length ks \<and> ks ! p = x"
proof -
  from is_cut_mem[OF assms(1,2,3)] have p: "p < length ks" "ks ! p \<le> x" by simp_all
  from is_cut_at[OF assms(2) p(1)] p show ?thesis by simp
qed

lemma rcut_mem_eq:
  assumes "sorted_wrt (<) ks" "is_rcut ks (\<lambda>k. k \<le> x) p" "x \<in> set ks"
  shows "p < length ks \<and> ks ! p = x"
proof -
  from is_rcut_mem[OF assms(1,2,3)] have p: "p < length ks" "x \<le> ks ! p" by simp_all
  from is_rcut_at[OF assms(2) p(1)] p show ?thesis by simp
qed

lemma cut_step:
  assumes s: "sorted_wrt (<) ks" and c: "is_cut ks (\<lambda>k. x \<le> k) p"
  shows "is_cut ks (\<lambda>k. x < k) (if x \<in> set ks then Suc p else p)"
proof (cases "x \<in> set ks")
  case True
  from cut_mem_eq[OF s c True] is_cut_Suc[OF s, of p] True show ?thesis by auto
next
  case False
  have "is_cut ks (\<lambda>k. x < k) p"
  proof (rule is_cut_shrink[OF s c])
    show "x < ks ! p" if "p < length ks"
      using is_cut_at[OF c that] False that by (metis nth_mem order_le_imp_less_or_eq)
  qed auto
  with False show ?thesis by simp
qed

lemma rcut_step:
  assumes s: "sorted_wrt (<) ks" and c: "is_rcut ks (\<lambda>k. k \<le> x) p"
  shows "is_rcut ks (\<lambda>k. k < x) (if x \<in> set ks then rprev (length ks) p else p)"
proof (cases "x \<in> set ks")
  case True
  from rcut_mem_eq[OF s c True] is_rcut_prev[OF s, of p] True show ?thesis
    by (auto simp: rprev_def)
next
  case False
  have "is_rcut ks (\<lambda>k. k < x) p"
  proof (rule is_rcut_shrink[OF s c])
    show "ks ! p < x" if "p < length ks"
      using is_rcut_at[OF c that] False that by (metis nth_mem order_le_imp_less_or_eq)
  qed auto
  with False show ?thesis by simp
qed

lemma fcut_to_rcut:
  assumes "is_cut ks (\<lambda>k. x \<le> k) p"
  shows "is_rcut ks (\<lambda>k. k < x) (rprev (length ks) p)"
proof -
  from assms have p: "p \<le> length ks" and c: "\<And>a. a < length ks \<Longrightarrow> (x \<le> ks ! a) = (p \<le> a)"
    by (simp_all add: is_cut_def)
  have "ks ! a < x \<longleftrightarrow> (rprev (length ks) p < length ks \<and> a \<le> rprev (length ks) p)"
    if a: "a < length ks" for a
  proof -
    have "ks ! a < x \<longleftrightarrow> a < p" using c[OF a] by auto
    also have "\<dots> \<longleftrightarrow> (rprev (length ks) p < length ks \<and> a \<le> rprev (length ks) p)"
      using p a by (auto simp: rprev_def)
    finally show ?thesis .
  qed
  moreover have "rprev (length ks) p \<le> length ks" using p by (auto simp: rprev_def)
  ultimately show ?thesis unfolding is_rcut_iff by blast
qed

lemma rcut_to_fcut:
  assumes "is_rcut ks (\<lambda>k. k \<le> x) p"
  shows "is_cut ks (\<lambda>k. x < k) (fnext (length ks) p)"
proof -
  from assms have p: "p \<le> length ks"
    and c: "\<And>a. a < length ks \<Longrightarrow> (ks ! a \<le> x) = (p < length ks \<and> a \<le> p)"
    by (simp_all add: is_rcut_iff)
  have "x < ks ! a \<longleftrightarrow> fnext (length ks) p \<le> a" if a: "a < length ks" for a
  proof -
    have "x < ks ! a \<longleftrightarrow> \<not> (p < length ks \<and> a \<le> p)" using c[OF a] by auto
    also have "\<dots> \<longleftrightarrow> fnext (length ks) p \<le> a"
      using p a by (auto simp: fnext_def)
    finally show ?thesis .
  qed
  moreover have "fnext (length ks) p \<le> length ks" using p by (auto simp: fnext_def)
  ultimately show ?thesis unfolding is_cut_def by blast
qed

lemma find_distinct_nth:
  assumes "distinct (map f xs)" "j < length xs"
  shows "find (\<lambda>e. f e = f (xs ! j)) xs = Some (xs ! j)"
proof -
  have "\<exists>i<length xs. f (xs ! i) = f (xs ! j) \<and> xs ! j = xs ! i \<and> (\<forall>a<i. f (xs ! a) \<noteq> f (xs ! j))"
  proof (intro exI[of _ j] conjI allI impI)
    fix a assume "a < j"
    with assms show "f (xs ! a) \<noteq> f (xs ! j)"
      using nth_eq_iff_index_eq[of "map f xs" a j] by simp
  qed (use assms in simp_all)
  then show ?thesis by (simp add: find_Some_iff)
qed

lemma shadow_val_delta:
  assumes "sorted_wrt (<) (map entry_key ds)" "j < length ds"
  shows "shadow_val bs ds (entry_key (ds ! j)) = entry_value (ds ! j)"
proof -
  from assms(1) have "distinct (map entry_key ds)" by (simp add: strict_sorted_iff)
  from find_distinct_nth[OF this assms(2)] show ?thesis by (simp add: shadow_val_def)
qed

lemma shadow_val_base:
  assumes "sorted_wrt (<) (map fst bs)" "i < length bs" "fst (bs ! i) \<notin> entry_key ` set ds"
  shows "shadow_val bs ds (fst (bs ! i)) = snd (bs ! i)"
proof -
  from assms(1) have "distinct (map fst bs)" by (simp add: strict_sorted_iff)
  moreover have "(fst (bs ! i), snd (bs ! i)) \<in> set bs" using assms(2) by simp
  ultimately have "map_of bs (fst (bs ! i)) = Some (snd (bs ! i))" by (rule map_of_is_SomeI)
  moreover have "find (\<lambda>e. entry_key e = fst (bs ! i)) ds = None"
    using assms(3) by (force simp: find_None_iff image_iff)
  ultimately show ?thesis by (simp add: shadow_val_def)
qed

lemma exposes_delta:
  assumes wf: "wf_items r" and j: "delta_pos r < length (dkeys r)" "dkeys r ! delta_pos r = x"
    and c: "\<not> current_at_base r"
  shows "Valid r \<and> key r = x \<and> val r = shadow_val (base_items r) (delta_items r) x"
proof -
  have dv: "DeltaValid r" using j by (simp add: DeltaValid_iff)
  have k: "entry_key (delta_items r ! delta_pos r) = x" using j by (simp add: dkeys_def)
  have "shadow_val (base_items r) (delta_items r) (entry_key (delta_items r ! delta_pos r)) =
      entry_value (delta_items r ! delta_pos r)"
    using wf j by (intro shadow_val_delta) (simp_all add: wf_items_def dkeys_def)
  with dv c k show ?thesis by (simp add: Valid_def key_def val_def delta_Entry_def)
qed

lemma exposes_base:
  assumes wf: "wf_items r" and i: "base_pos r < length (bkeys r)" "bkeys r ! base_pos r = x"
    and c: "current_at_base r" and n: "x \<notin> set (dkeys r)"
  shows "Valid r \<and> key r = x \<and> val r = shadow_val (base_items r) (delta_items r) x"
proof -
  have bv: "BaseValid r" using i by (simp add: BaseValid_iff)
  have k: "fst (base_items r ! base_pos r) = x" using i by (simp add: bkeys_def)
  have "shadow_val (base_items r) (delta_items r) (fst (base_items r ! base_pos r)) =
      snd (base_items r ! base_pos r)"
    using wf i n k by (intro shadow_val_base) (simp_all add: wf_items_def bkeys_def dkeys_def)
  with bv c k show ?thesis by (simp add: Valid_def key_def val_def base_key_def base_value_def)
qed

lemma Fstate_exposes:
  assumes wf: "wf_items r" and v: "vis r x" and f: "Fstate r x"
  shows "Valid r \<and> key r = x \<and> val r = shadow_val (base_items r) (delta_items r) x"
proof (cases "x \<in> set (dkeys r)")
  case True
  have "delta_pos r < length (dkeys r) \<and> dkeys r ! delta_pos r = x"
    using wf f True by (intro cut_mem_eq) (simp_all add: wf_items_def Fstate_def Fcut_def)
  moreover have "\<not> current_at_base r" using f True by (simp add: Fstate_def)
  ultimately show ?thesis using wf by (intro exposes_delta) simp_all
next
  case False
  with vis_cases[OF v] have b: "x \<in> set (bkeys r)" by simp
  have "base_pos r < length (bkeys r) \<and> bkeys r ! base_pos r = x"
    using wf f b by (intro cut_mem_eq) (simp_all add: wf_items_def Fstate_def Fcut_def)
  moreover have "current_at_base r" using f False by (simp add: Fstate_def)
  ultimately show ?thesis using wf False by (intro exposes_base) simp_all
qed

lemma Rstate_exposes:
  assumes wf: "wf_items r" and v: "vis r x" and f: "Rstate r x"
  shows "Valid r \<and> key r = x \<and> val r = shadow_val (base_items r) (delta_items r) x"
proof (cases "x \<in> set (dkeys r)")
  case True
  have "delta_pos r < length (dkeys r) \<and> dkeys r ! delta_pos r = x"
    using wf f True by (intro rcut_mem_eq) (simp_all add: wf_items_def Rstate_def Rcut_def)
  moreover have "\<not> current_at_base r" using f True by (simp add: Rstate_def)
  ultimately show ?thesis using wf by (intro exposes_delta) simp_all
next
  case False
  with vis_cases[OF v] have b: "x \<in> set (bkeys r)" by simp
  have "base_pos r < length (bkeys r) \<and> bkeys r ! base_pos r = x"
    using wf f b by (intro rcut_mem_eq) (simp_all add: wf_items_def Rstate_def Rcut_def)
  moreover have "current_at_base r" using f False by (simp add: Rstate_def)
  ultimately show ?thesis using wf False by (intro exposes_base) simp_all
qed

text \<open>The four seeks establish a cut.\<close>

lemma Seek_fpost:
  assumes "wf_items it"
  shows "fpost it {v. vis it v \<and> k \<le> v} (Seek k it)"
proof -
  let ?s = "it\<lparr>forward := True, base_pos := it_seek fst (base_items it) k,
        delta_pos := it_seek entry_key (delta_items it) k\<rparr>"
  have "Fcut ?s (\<lambda>x. k \<le> x)"
    using assms it_seek_cut[of fst "base_items it" k] it_seek_cut[of entry_key "delta_items it" k]
    by (simp add: Fcut_def wf_items_def bkeys_def dkeys_def)
  moreover have "wf_items ?s" using assms by (simp add: wf_items_def bkeys_def dkeys_def)
  ultimately have "fpost ?s {v. vis ?s v \<and> k \<le> v} (UpdateCurrent ?s)"
    by (intro UC_forward) simp_all
  then show ?thesis by (simp add: Seek_def fpost_def vis_def)
qed

lemma SeekToFirst_fpost:
  assumes "wf_items it"
  shows "fpost it {v. vis it v} (SeekToFirst it)"
proof -
  let ?s = "it\<lparr>forward := True, base_pos := it_seek_to_first (base_items it),
        delta_pos := it_seek_to_first (delta_items it)\<rparr>"
  have "Fcut ?s (\<lambda>x. True)"
    by (simp add: Fcut_def is_cut_first it_seek_to_first_def)
  moreover have "wf_items ?s" using assms by (simp add: wf_items_def bkeys_def dkeys_def)
  ultimately have "fpost ?s {v. vis ?s v \<and> True} (UpdateCurrent ?s)"
    by (intro UC_forward) simp_all
  then show ?thesis by (simp add: SeekToFirst_def fpost_def vis_def)
qed

lemma SeekForPrev_rpost:
  assumes "wf_items it"
  shows "rpost it {v. vis it v \<and> v \<le> k} (SeekForPrev k it)"
proof -
  let ?s = "it\<lparr>forward := False, base_pos := it_seek_for_prev fst (base_items it) k,
        delta_pos := it_seek_for_prev entry_key (delta_items it) k\<rparr>"
  have "Rcut ?s (\<lambda>x. x \<le> k)"
    using assms it_seek_for_prev_rcut[of fst "base_items it" k]
      it_seek_for_prev_rcut[of entry_key "delta_items it" k]
    by (simp add: Rcut_def wf_items_def bkeys_def dkeys_def)
  moreover have "wf_items ?s" using assms by (simp add: wf_items_def bkeys_def dkeys_def)
  ultimately have "rpost ?s {v. vis ?s v \<and> v \<le> k} (UpdateCurrent ?s)"
    by (intro UC_reverse) simp_all
  then show ?thesis by (simp add: SeekForPrev_def rpost_def vis_def)
qed

lemma SeekToLast_rpost:
  assumes "wf_items it"
  shows "rpost it {v. vis it v} (SeekToLast it)"
proof -
  let ?s = "it\<lparr>forward := False, base_pos := it_seek_to_last (base_items it),
        delta_pos := it_seek_to_last (delta_items it)\<rparr>"
  have "Rcut ?s (\<lambda>x. True)"
    using is_rcut_last[of fst "base_items it"] is_rcut_last[of entry_key "delta_items it"]
    by (simp add: Rcut_def bkeys_def dkeys_def)
  moreover have "wf_items ?s" using assms by (simp add: wf_items_def bkeys_def dkeys_def)
  ultimately have "rpost ?s {v. vis ?s v \<and> True} (UpdateCurrent ?s)"
    by (intro UC_reverse) simp_all
  then show ?thesis by (simp add: SeekToLast_def rpost_def vis_def)
qed

lemma Next_Fstate:
  assumes wf: "wf_items it" and v: "vis it x" and f: "Fstate it x"
  shows "fpost it {v. vis it v \<and> x < v} (Next it)"
proof -
  from Fstate_exposes[OF wf v f] have val: "Valid it" by simp
  from f have fw: "forward it" and cb: "is_cut (bkeys it) (\<lambda>k. x \<le> k) (base_pos it)"
    and cd: "is_cut (dkeys it) (\<lambda>k. x \<le> k) (delta_pos it)"
    and cur: "current_at_base it = (x \<notin> set (dkeys it))"
    and eq: "equal_keys it = (x \<in> set (bkeys it) \<and> x \<in> set (dkeys it))"
    by (simp_all add: Fstate_def Fcut_def)
  from wf have sb: "sorted_wrt (<) (bkeys it)" and sd: "sorted_wrt (<) (dkeys it)"
    by (simp_all add: wf_items_def)
  define s where "s = (if equal_keys it then AdvanceDelta (AdvanceBase it)
        else if current_at_base it then AdvanceBase it else AdvanceDelta it)"
  have nx: "Next it = UpdateCurrent s"
    using val fw by (simp add: Next_def Advance_def s_def Let_def)
  have items: "base_items s = base_items it" "delta_items s = delta_items it" "forward s"
    using fw by (simp_all add: s_def AdvanceDelta_def AdvanceBase_def)
  have bpos: "base_pos s = (if x \<in> set (bkeys it) then Suc (base_pos it) else base_pos it)"
  proof (cases "x \<in> set (bkeys it)")
    case True
    with cut_mem_eq[OF sb cb] have "base_pos it < length (base_items it)" by (simp add: bkeys_def)
    with True fw eq cur show ?thesis
      by (simp add: s_def AdvanceDelta_def AdvanceBase_def it_next_def)
  next
    case False
    with vis_cases[OF v] have "x \<in> set (dkeys it)" by simp
    with False fw eq cur show ?thesis
      by (simp add: s_def AdvanceDelta_def AdvanceBase_def it_next_def)
  qed
  have dpos: "delta_pos s = (if x \<in> set (dkeys it) then Suc (delta_pos it) else delta_pos it)"
  proof (cases "x \<in> set (dkeys it)")
    case True
    with cut_mem_eq[OF sd cd] have "delta_pos it < length (delta_items it)" by (simp add: dkeys_def)
    with True fw eq cur show ?thesis
      by (simp add: s_def AdvanceDelta_def AdvanceBase_def it_next_def)
  next
    case False
    with vis_cases[OF v] have "x \<in> set (bkeys it)" by simp
    with False fw eq cur show ?thesis
      by (simp add: s_def AdvanceDelta_def AdvanceBase_def it_next_def)
  qed
  have "Fcut s (\<lambda>k. x < k)"
    using cut_step[OF sb cb] cut_step[OF sd cd] items
    by (simp add: Fcut_def bkeys_def dkeys_def bpos dpos)
  moreover have "wf_items s" using wf items by (simp add: wf_items_def bkeys_def dkeys_def)
  ultimately have "fpost s {v. vis s v \<and> x < v} (UpdateCurrent s)"
    by (intro UC_forward) simp_all
  then show ?thesis using items by (simp add: nx fpost_def vis_def)
qed

lemma Prev_Rstate:
  assumes wf: "wf_items it" and v: "vis it x" and f: "Rstate it x"
  shows "rpost it {v. vis it v \<and> v < x} (Prev it)"
proof -
  from Rstate_exposes[OF wf v f] have val: "Valid it" by simp
  from f have fw: "\<not> forward it" and cb: "is_rcut (bkeys it) (\<lambda>k. k \<le> x) (base_pos it)"
    and cd: "is_rcut (dkeys it) (\<lambda>k. k \<le> x) (delta_pos it)"
    and cur: "current_at_base it = (x \<notin> set (dkeys it))"
    and eq: "equal_keys it = (x \<in> set (bkeys it) \<and> x \<in> set (dkeys it))"
    by (simp_all add: Rstate_def Rcut_def)
  from wf have sb: "sorted_wrt (<) (bkeys it)" and sd: "sorted_wrt (<) (dkeys it)"
    by (simp_all add: wf_items_def)
  define s where "s = (if equal_keys it then AdvanceDelta (AdvanceBase it)
        else if current_at_base it then AdvanceBase it else AdvanceDelta it)"
  have nx: "Prev it = UpdateCurrent s"
    using val fw by (simp add: Prev_def Advance_def s_def Let_def)
  have items: "base_items s = base_items it" "delta_items s = delta_items it" "\<not> forward s"
    using fw by (simp_all add: s_def AdvanceDelta_def AdvanceBase_def)
  have bpos: "base_pos s = (if x \<in> set (bkeys it) then rprev (length (bkeys it)) (base_pos it) else base_pos it)"
  proof (cases "x \<in> set (bkeys it)")
    case True
    with rcut_mem_eq[OF sb cb] have "base_pos it < length (base_items it)" by (simp add: bkeys_def)
    with True fw eq cur show ?thesis
      by (simp add: s_def AdvanceDelta_def AdvanceBase_def it_prev_rprev bkeys_def)
  next
    case False
    with vis_cases[OF v] have "x \<in> set (dkeys it)" by simp
    with False fw eq cur show ?thesis
      by (simp add: s_def AdvanceDelta_def AdvanceBase_def)
  qed
  have dpos: "delta_pos s = (if x \<in> set (dkeys it) then rprev (length (dkeys it)) (delta_pos it) else delta_pos it)"
  proof (cases "x \<in> set (dkeys it)")
    case True
    with rcut_mem_eq[OF sd cd] have "delta_pos it < length (delta_items it)" by (simp add: dkeys_def)
    with True fw eq cur show ?thesis
      by (simp add: s_def AdvanceDelta_def AdvanceBase_def it_prev_rprev dkeys_def)
  next
    case False
    with vis_cases[OF v] have "x \<in> set (bkeys it)" by simp
    with False fw eq cur show ?thesis
      by (simp add: s_def AdvanceDelta_def AdvanceBase_def)
  qed
  have "Rcut s (\<lambda>k. k < x)"
    using rcut_step[OF sb cb] rcut_step[OF sd cd] items
    by (simp add: Rcut_def bkeys_def dkeys_def bpos dpos)
  moreover have "wf_items s" using wf items by (simp add: wf_items_def bkeys_def dkeys_def)
  ultimately have "rpost s {v. vis s v \<and> v < x} (UpdateCurrent s)"
    by (intro UC_reverse) simp_all
  then show ?thesis using items by (simp add: nx rpost_def vis_def)
qed

lemma pos_update_commute:
  "(r::BaseDeltaIterator)\<lparr>delta_pos := a, base_pos := b\<rparr> = r\<lparr>base_pos := b, delta_pos := a\<rparr>"
  by simp

lemma Prev_Fstate:
  assumes wf: "wf_items it" and v: "vis it x" and f: "Fstate it x"
  shows "rpost it {v. vis it v \<and> v < x} (Prev it)"
proof -
  let ?n = "length (base_items it)" and ?m = "length (delta_items it)"
  let ?i = "base_pos it" and ?j = "delta_pos it"
  from Fstate_exposes[OF wf v f] have val: "Valid it" by simp
  from f have fw: "forward it" and cb: "is_cut (bkeys it) (\<lambda>k. x \<le> k) ?i"
    and cd: "is_cut (dkeys it) (\<lambda>k. x \<le> k) ?j"
    and cur: "current_at_base it = (x \<notin> set (dkeys it))"
    by (simp_all add: Fstate_def Fcut_def)
  from wf have sb: "sorted_wrt (<) (bkeys it)" and sd: "sorted_wrt (<) (dkeys it)"
    by (simp_all add: wf_items_def)
  have rb: "is_rcut (bkeys it) (\<lambda>k. k < x) (rprev ?n ?i)"
    using fcut_to_rcut[OF cb] by (simp add: bkeys_def)
  have rd: "is_rcut (dkeys it) (\<lambda>k. k < x) (rprev ?m ?j)"
    using fcut_to_rcut[OF cd] by (simp add: dkeys_def)
  have ile: "?i \<le> ?n" and jle: "?j \<le> ?m" using cb cd by (simp_all add: is_cut_def bkeys_def dkeys_def)
  have nb: "fst (base_items it ! rprev ?n ?i) < x" if "rprev ?n ?i < ?n"
    using is_rcut_at[OF rb] that by (simp add: bkeys_def)
  have nd: "entry_key (delta_items it ! rprev ?m ?j) < x" if "rprev ?m ?j < ?m"
    using is_rcut_at[OF rd] that by (simp add: dkeys_def)
  define s where "s = it\<lparr>forward := False, equal_keys := False,
      base_pos := rprev ?n ?i, delta_pos := rprev ?m ?j\<rparr>"
  have nx: "Prev it = UpdateCurrent s"
  proof (cases "x \<in> set (dkeys it)")
    case True
    with cut_mem_eq[OF sd cd] have j: "?j < ?m" "entry_key (delta_items it ! ?j) = x"
      by (auto simp: dkeys_def)
    from True cur have c: "\<not> current_at_base it" by simp
    show ?thesis
    proof (cases "?i < ?n")
      case True
      from nb j c True val fw show ?thesis
        by (auto simp: Prev_def Let_def Advance_def BaseValid_def DeltaValid_def it_valid_def
            AdvanceBase_def AdvanceDelta_def Equal_def delta_Entry_def base_key_def
            it_prev_rprev s_def intro!: arg_cong[where f = UpdateCurrent])
    next
      case False
      with ile have "?i = ?n" by simp
      with nb j c False val fw show ?thesis
        by (auto simp: Prev_def Let_def Advance_def BaseValid_def DeltaValid_def it_valid_def
            AdvanceBase_def AdvanceDelta_def Equal_def delta_Entry_def base_key_def
            it_prev_rprev it_seek_to_last_rprev s_def intro!: arg_cong[where f = UpdateCurrent])
    qed
  next
    case False
    with vis_cases[OF v] have "x \<in> set (bkeys it)" by simp
    with cut_mem_eq[OF sb cb] have i: "?i < ?n" "fst (base_items it ! ?i) = x"
      by (auto simp: bkeys_def)
    from False cur have c: "current_at_base it" by simp
    show ?thesis
    proof (cases "?j < ?m")
      case True
      from nd i c True val fw show ?thesis
        by (auto simp: Prev_def Let_def Advance_def BaseValid_def DeltaValid_def it_valid_def
            AdvanceBase_def AdvanceDelta_def Equal_def delta_Entry_def base_key_def
            it_prev_rprev s_def intro!: arg_cong[where f = UpdateCurrent])
    next
      case False
      with jle have "?j = ?m" by simp
      with nd i c False val fw show ?thesis
        by (auto simp: Prev_def Let_def Advance_def BaseValid_def DeltaValid_def it_valid_def
            AdvanceBase_def AdvanceDelta_def Equal_def delta_Entry_def base_key_def
            it_prev_rprev it_seek_to_last_rprev s_def intro!: arg_cong[where f = UpdateCurrent])
    qed
  qed
  have "Rcut s (\<lambda>k. k < x)" using rb rd by (simp add: Rcut_def s_def bkeys_def dkeys_def)
  moreover have "wf_items s" using wf by (simp add: wf_items_def bkeys_def dkeys_def s_def)
  ultimately have "rpost s {v. vis s v \<and> v < x} (UpdateCurrent s)"
    by (intro UC_reverse) simp_all
  then show ?thesis by (simp add: nx rpost_def vis_def s_def)
qed

lemma Next_Rstate:
  assumes wf: "wf_items it" and v: "vis it x" and f: "Rstate it x"
  shows "fpost it {v. vis it v \<and> x < v} (Next it)"
proof -
  let ?n = "length (base_items it)" and ?m = "length (delta_items it)"
  let ?i = "base_pos it" and ?j = "delta_pos it"
  from Rstate_exposes[OF wf v f] have val: "Valid it" by simp
  from f have fw: "\<not> forward it" and cb: "is_rcut (bkeys it) (\<lambda>k. k \<le> x) ?i"
    and cd: "is_rcut (dkeys it) (\<lambda>k. k \<le> x) ?j"
    and cur: "current_at_base it = (x \<notin> set (dkeys it))"
    by (simp_all add: Rstate_def Rcut_def)
  from wf have sb: "sorted_wrt (<) (bkeys it)" and sd: "sorted_wrt (<) (dkeys it)"
    by (simp_all add: wf_items_def)
  have rb: "is_cut (bkeys it) (\<lambda>k. x < k) (fnext ?n ?i)"
    using rcut_to_fcut[OF cb] by (simp add: bkeys_def)
  have rd: "is_cut (dkeys it) (\<lambda>k. x < k) (fnext ?m ?j)"
    using rcut_to_fcut[OF cd] by (simp add: dkeys_def)
  have ile: "?i \<le> ?n" and jle: "?j \<le> ?m" using cb cd by (simp_all add: is_rcut_def bkeys_def dkeys_def)
  have nb: "x < fst (base_items it ! fnext ?n ?i)" if "fnext ?n ?i < ?n"
    using is_cut_at[OF rb] that by (simp add: bkeys_def)
  have nd: "x < entry_key (delta_items it ! fnext ?m ?j)" if "fnext ?m ?j < ?m"
    using is_cut_at[OF rd] that by (simp add: dkeys_def)
  define s where "s = it\<lparr>forward := True, equal_keys := False,
      base_pos := fnext ?n ?i, delta_pos := fnext ?m ?j\<rparr>"
  have nx: "Next it = UpdateCurrent s"
  proof (cases "x \<in> set (dkeys it)")
    case True
    with rcut_mem_eq[OF sd cd] have j: "?j < ?m" "entry_key (delta_items it ! ?j) = x"
      by (auto simp: dkeys_def)
    from True cur have c: "\<not> current_at_base it" by simp
    show ?thesis
    proof (cases "?i < ?n")
      case True
      from nb j c True val fw show ?thesis
        by (auto simp: Next_def Let_def Advance_def BaseValid_def DeltaValid_def it_valid_def
            AdvanceBase_def AdvanceDelta_def Equal_def delta_Entry_def base_key_def
            it_next_fnext s_def intro!: arg_cong[where f = UpdateCurrent])
    next
      case False
      with ile have "?i = ?n" by simp
      with nb j c False val fw show ?thesis
        by (auto simp: Next_def Let_def Advance_def BaseValid_def DeltaValid_def it_valid_def
            AdvanceBase_def AdvanceDelta_def Equal_def delta_Entry_def base_key_def
            it_next_fnext it_seek_to_first_fnext s_def intro!: arg_cong[where f = UpdateCurrent])
    qed
  next
    case False
    with vis_cases[OF v] have "x \<in> set (bkeys it)" by simp
    with rcut_mem_eq[OF sb cb] have i: "?i < ?n" "fst (base_items it ! ?i) = x"
      by (auto simp: bkeys_def)
    from False cur have c: "current_at_base it" by simp
    show ?thesis
    proof (cases "?j < ?m")
      case True
      from nd i c True val fw show ?thesis
        by (auto simp: Next_def Let_def Advance_def BaseValid_def DeltaValid_def it_valid_def
            AdvanceBase_def AdvanceDelta_def Equal_def delta_Entry_def base_key_def
            it_next_fnext s_def intro!: arg_cong[where f = UpdateCurrent])
    next
      case False
      with jle have "?j = ?m" by simp
      with nd i c False val fw show ?thesis
        by (auto simp: Next_def Let_def Advance_def BaseValid_def DeltaValid_def it_valid_def
            AdvanceBase_def AdvanceDelta_def Equal_def delta_Entry_def base_key_def
            it_next_fnext it_seek_to_first_fnext s_def intro!: arg_cong[where f = UpdateCurrent])
    qed
  qed
  have "Fcut s (\<lambda>k. x < k)" using rb rd by (simp add: Fcut_def s_def bkeys_def dkeys_def)
  moreover have "wf_items s" using wf by (simp add: wf_items_def bkeys_def dkeys_def s_def)
  ultimately have "fpost s {v. vis s v \<and> x < v} (UpdateCurrent s)"
    by (intro UC_forward) simp_all
  then show ?thesis by (simp add: nx fpost_def vis_def s_def)
qed

lemma same_items_wf:
  "base_items r = base_items it \<Longrightarrow> delta_items r = delta_items it \<Longrightarrow> wf_items r = wf_items it"
  by (simp add: wf_items_def bkeys_def dkeys_def)

lemma same_items_vis:
  "base_items r = base_items it \<Longrightarrow> delta_items r = delta_items it \<Longrightarrow> vis r = vis it"
  by (simp add: vis_def)

lemma fpost_Valid:
  assumes "fpost it {v. P v} r" "Valid r"
  shows "\<exists>x. P x \<and> (\<forall>v. P v \<longrightarrow> x \<le> v) \<and> Fstate r x"
proof -
  from assms(2) have "BaseValid r \<or> DeltaValid r" by (auto simp: Valid_def split: if_splits)
  with assms(1) have "\<exists>x\<in>{v. P v}. (\<forall>v\<in>{v. P v}. x \<le> v) \<and> Fstate r x"
    unfolding fpost_def by blast
  then show ?thesis by blast
qed

lemma rpost_Valid:
  assumes "rpost it {v. P v} r" "Valid r"
  shows "\<exists>x. P x \<and> (\<forall>v. P v \<longrightarrow> v \<le> x) \<and> Rstate r x"
proof -
  from assms(2) have "BaseValid r \<or> DeltaValid r" by (auto simp: Valid_def split: if_splits)
  with assms(1) have "\<exists>x\<in>{v. P v}. (\<forall>v\<in>{v. P v}. v \<le> x) \<and> Rstate r x"
    unfolding rpost_def by blast
  then show ?thesis by blast
qed

lemma fpost_nonempty:
  assumes "fpost it {v. P v} r" "P a"
  shows "\<exists>x. P x \<and> (\<forall>v. P v \<longrightarrow> x \<le> v) \<and> Fstate r x"
proof -
  from assms(2) have "{v. P v} \<noteq> {}" by blast
  with assms(1) have "\<exists>x\<in>{v. P v}. (\<forall>v\<in>{v. P v}. x \<le> v) \<and> Fstate r x"
    unfolding fpost_def by blast
  then show ?thesis by blast
qed

lemma rpost_nonempty:
  assumes "rpost it {v. P v} r" "P a"
  shows "\<exists>x. P x \<and> (\<forall>v. P v \<longrightarrow> v \<le> x) \<and> Rstate r x"
proof -
  from assms(2) have "{v. P v} \<noteq> {}" by blast
  with assms(1) have "\<exists>x\<in>{v. P v}. (\<forall>v\<in>{v. P v}. v \<le> x) \<and> Rstate r x"
    unfolding rpost_def by blast
  then show ?thesis by blast
qed

lemma fpost_items: "fpost it S r \<Longrightarrow> base_items r = base_items it \<and> delta_items r = delta_items it"
  by (simp add: fpost_def)

lemma rpost_items: "rpost it S r \<Longrightarrow> base_items r = base_items it \<and> delta_items r = delta_items it"
  by (simp add: rpost_def)

lemma seek_next_prev:
  assumes wf: "wf_items it" and v0: "Valid (Seek k it)" and v1: "Valid (Next (Seek k it))"
  shows "Valid (Prev (Next (Seek k it))) \<and>
         key (Prev (Next (Seek k it))) = key (Seek k it) \<and>
         val (Prev (Next (Seek k it))) = val (Seek k it)"
proof -
  let ?s0 = "Seek k it" and ?s1 = "Next (Seek k it)" and ?s2 = "Prev (Next (Seek k it))"
  have p0: "fpost it {v. vis it v \<and> k \<le> v} ?s0" using wf by (rule Seek_fpost)
  from fpost_items[OF p0] have i0: "base_items ?s0 = base_items it" "delta_items ?s0 = delta_items it"
    by simp_all
  have wf0: "wf_items ?s0" using wf same_items_wf[OF i0] by simp
  have vis0: "vis ?s0 = vis it" using i0 by (rule same_items_vis)
  from fpost_Valid[OF p0 v0] obtain x0 where x0: "vis it x0" "Fstate ?s0 x0" by blast
  have "fpost ?s0 {v. vis ?s0 v \<and> x0 < v} ?s1"
    using wf0 x0 by (intro Next_Fstate) (simp_all add: vis0)
  then have p1: "fpost ?s0 {v. vis it v \<and> x0 < v} ?s1" by (simp add: vis0)
  from fpost_items[OF p1] i0 have i1: "base_items ?s1 = base_items it" "delta_items ?s1 = delta_items it"
    by simp_all
  have wf1: "wf_items ?s1" using wf same_items_wf[OF i1] by simp
  have vis1: "vis ?s1 = vis it" using i1 by (rule same_items_vis)
  from fpost_Valid[OF p1 v1] obtain x1
    where x1: "vis it x1" "x0 < x1" "\<forall>v. vis it v \<and> x0 < v \<longrightarrow> x1 \<le> v" "Fstate ?s1 x1"
    by blast
  have "rpost ?s1 {v. vis ?s1 v \<and> v < x1} ?s2"
    using wf1 x1(1,4) by (intro Prev_Fstate) (simp_all add: vis1)
  then have p2: "rpost ?s1 {v. vis it v \<and> v < x1} ?s2" by (simp add: vis1)
  from rpost_items[OF p2] i1 have i2: "base_items ?s2 = base_items it" "delta_items ?s2 = delta_items it"
    by simp_all
  have wf2: "wf_items ?s2" using wf same_items_wf[OF i2] by simp
  have vis2: "vis ?s2 = vis it" using i2 by (rule same_items_vis)
  have "vis it x0 \<and> x0 < x1" using x0(1) x1(2) by simp
  from rpost_nonempty[OF p2 this] obtain x2
    where x2: "vis it x2" "x2 < x1" "\<forall>v. vis it v \<and> v < x1 \<longrightarrow> v \<le> x2" "Rstate ?s2 x2"
    by blast
  have le: "x0 \<le> x2" using x2(3) x0(1) x1(2) by blast
  have "\<not> x0 < x2"
  proof
    assume "x0 < x2"
    then have "x1 \<le> x2" using x1(3) x2(1) by blast
    with x2(2) show False by simp
  qed
  with le have e: "x2 = x0" by simp
  from Fstate_exposes[OF wf0 _ x0(2)] x0(1)
  have a: "key ?s0 = x0" "val ?s0 = shadow_val (base_items it) (delta_items it) x0"
    by (simp_all add: vis0 i0)
  from Rstate_exposes[OF wf2 _ x2(4)] x2(1)
  have b: "Valid ?s2" "key ?s2 = x2" "val ?s2 = shadow_val (base_items it) (delta_items it) x2"
    by (simp_all add: vis2 i2)
  from a b e show ?thesis by simp
qed

lemma seek_for_prev_prev_next:
  assumes wf: "wf_items it" and v0: "Valid (SeekForPrev k it)" and v1: "Valid (Prev (SeekForPrev k it))"
  shows "Valid (Next (Prev (SeekForPrev k it))) \<and>
         key (Next (Prev (SeekForPrev k it))) = key (SeekForPrev k it) \<and>
         val (Next (Prev (SeekForPrev k it))) = val (SeekForPrev k it)"
proof -
  let ?s0 = "SeekForPrev k it" and ?s1 = "Prev (SeekForPrev k it)"
    and ?s2 = "Next (Prev (SeekForPrev k it))"
  have p0: "rpost it {v. vis it v \<and> v \<le> k} ?s0" using wf by (rule SeekForPrev_rpost)
  from rpost_items[OF p0] have i0: "base_items ?s0 = base_items it" "delta_items ?s0 = delta_items it"
    by simp_all
  have wf0: "wf_items ?s0" using wf same_items_wf[OF i0] by simp
  have vis0: "vis ?s0 = vis it" using i0 by (rule same_items_vis)
  from rpost_Valid[OF p0 v0] obtain x0 where x0: "vis it x0" "Rstate ?s0 x0" by blast
  have "rpost ?s0 {v. vis ?s0 v \<and> v < x0} ?s1"
    using wf0 x0 by (intro Prev_Rstate) (simp_all add: vis0)
  then have p1: "rpost ?s0 {v. vis it v \<and> v < x0} ?s1" by (simp add: vis0)
  from rpost_items[OF p1] i0 have i1: "base_items ?s1 = base_items it" "delta_items ?s1 = delta_items it"
    by simp_all
  have wf1: "wf_items ?s1" using wf same_items_wf[OF i1] by simp
  have vis1: "vis ?s1 = vis it" using i1 by (rule same_items_vis)
  from rpost_Valid[OF p1 v1] obtain x1
    where x1: "vis it x1" "x1 < x0" "\<forall>v. vis it v \<and> v < x0 \<longrightarrow> v \<le> x1" "Rstate ?s1 x1"
    by blast
  have "fpost ?s1 {v. vis ?s1 v \<and> x1 < v} ?s2"
    using wf1 x1(1,4) by (intro Next_Rstate) (simp_all add: vis1)
  then have p2: "fpost ?s1 {v. vis it v \<and> x1 < v} ?s2" by (simp add: vis1)
  from fpost_items[OF p2] i1 have i2: "base_items ?s2 = base_items it" "delta_items ?s2 = delta_items it"
    by simp_all
  have wf2: "wf_items ?s2" using wf same_items_wf[OF i2] by simp
  have vis2: "vis ?s2 = vis it" using i2 by (rule same_items_vis)
  have "vis it x0 \<and> x1 < x0" using x0(1) x1(2) by simp
  from fpost_nonempty[OF p2 this] obtain x2
    where x2: "vis it x2" "x1 < x2" "\<forall>v. vis it v \<and> x1 < v \<longrightarrow> x2 \<le> v" "Fstate ?s2 x2"
    by blast
  have le: "x2 \<le> x0" using x2(3) x0(1) x1(2) by blast
  have "\<not> x2 < x0"
  proof
    assume "x2 < x0"
    then have "x2 \<le> x1" using x1(3) x2(1) by blast
    with x2(2) show False by simp
  qed
  with le have e: "x2 = x0" by simp
  from Rstate_exposes[OF wf0 _ x0(2)] x0(1)
  have a: "key ?s0 = x0" "val ?s0 = shadow_val (base_items it) (delta_items it) x0"
    by (simp_all add: vis0 i0)
  from Fstate_exposes[OF wf2 _ x2(4)] x2(1)
  have b: "Valid ?s2" "key ?s2 = x2" "val ?s2 = shadow_val (base_items it) (delta_items it) x2"
    by (simp_all add: vis2 i2)
  from a b e show ?thesis by simp
qed

lemma vis_subset: "{v. vis r v \<and> A v} \<subseteq> set (bkeys r) \<union> set (dkeys r)"
  using vis_cases by blast

lemma vis_finite: "finite {v. vis r v \<and> A v}"
  by (rule finite_subset[OF vis_subset]) simp

lemma vis_card: "card {v. vis r v \<and> A v} \<le> length (base_items r) + length (delta_items r)"
proof -
  have "card {v. vis r v \<and> A v} \<le> card (set (bkeys r) \<union> set (dkeys r))"
    by (rule card_mono[OF _ vis_subset]) simp
  also have "\<dots> \<le> card (set (bkeys r)) + card (set (dkeys r))" by (rule card_Un_le)
  also have "\<dots> \<le> length (bkeys r) + length (dkeys r)"
    by (intro add_mono card_length)
  finally show ?thesis by (simp add: bkeys_def dkeys_def)
qed

lemma fpost_self:
  "fpost it S r \<Longrightarrow> fpost r S r"
  by (simp add: fpost_def)

lemma scan_loop_canonical:
  assumes "wf_items r" "upc A" "fpost r {v. vis r v \<and> A v} r" "card {v. vis r v \<and> A v} < n"
  shows "\<exists>out. scan_loop n r = Some out \<and> sorted_wrt (<) (map fst out) \<and>
           set (map fst out) = {v. vis r v \<and> A v} \<and>
           (\<forall>p\<in>set out. snd p = shadow_val (base_items r) (delta_items r) (fst p))"
  using assms
proof (induction n arbitrary: r A)
  case 0
  then show ?case by simp
next
  case (Suc n)
  let ?S = "{v. vis r v \<and> A v}"
  show ?case
  proof (cases "Valid r")
    case False
    have "?S = {}"
    proof (rule ccontr)
      assume "?S \<noteq> {}"
      then obtain a where "vis r a \<and> A a" by blast
      from fpost_nonempty[OF Suc.prems(3) this] obtain x where "vis r x" "Fstate r x" by blast
      with Fstate_exposes[OF Suc.prems(1)] False show False by blast
    qed
    with False show ?thesis by simp
  next
    case True
    from fpost_Valid[OF Suc.prems(3) True] obtain x
      where x: "vis r x" "A x" "\<forall>v. vis r v \<and> A v \<longrightarrow> x \<le> v" "Fstate r x" by blast
    from Fstate_exposes[OF Suc.prems(1) x(1,4)]
    have ex: "key r = x" "val r = shadow_val (base_items r) (delta_items r) x" by simp_all
    let ?r' = "Next r"
    have p: "fpost r {v. vis r v \<and> x < v} ?r'"
      using Suc.prems(1) x(1,4) by (rule Next_Fstate)
    from fpost_items[OF p] have it: "base_items ?r' = base_items r" "delta_items ?r' = delta_items r"
      by simp_all
    have vis': "vis ?r' = vis r" using it by (rule same_items_vis)
    have wf': "wf_items ?r'" using Suc.prems(1) same_items_wf[OF it] by simp
    have p': "fpost ?r' {v. vis ?r' v \<and> x < v} ?r'"
      using fpost_self[OF p] by (simp add: vis')
    have sub: "{v. vis r v \<and> x < v} \<subset> ?S"
    proof
      show "{v. vis r v \<and> x < v} \<subseteq> ?S"
        using upcD_less[OF Suc.prems(2) x(2)] by blast
      show "{v. vis r v \<and> x < v} \<noteq> ?S" using x(1,2) by blast
    qed
    have "card {v. vis r v \<and> x < v} < card ?S"
      by (rule psubset_card_mono[OF vis_finite sub])
    with Suc.prems(4) have c: "card {v. vis ?r' v \<and> x < v} < n" by (simp add: vis')
    from Suc.IH[OF wf' upc_lt p' c] obtain out where out: "scan_loop n ?r' = Some out"
      "sorted_wrt (<) (map fst out)" "set (map fst out) = {v. vis r v \<and> x < v}"
      "\<forall>p\<in>set out. snd p = shadow_val (base_items r) (delta_items r) (fst p)"
      by (auto simp: vis' it)
    have s1: "scan_loop (Suc n) r = Some ((x, val r) # out)"
      using True out(1) ex(1) by simp
    have s2: "sorted_wrt (<) (map fst ((x, val r) # out))"
      using out(2,3) by auto
    have "insert x {v. vis r v \<and> x < v} = ?S"
    proof
      show "insert x {v. vis r v \<and> x < v} \<subseteq> ?S" using sub x(1,2) by blast
      show "?S \<subseteq> insert x {v. vis r v \<and> x < v}"
      proof
        fix v assume "v \<in> ?S"
        then have v: "vis r v" "A v" by simp_all
        with x(3) have "x \<le> v" by blast
        then have "v = x \<or> x < v" by auto
        with v(1) show "v \<in> insert x {v. vis r v \<and> x < v}" by blast
      qed
    qed
    then have s3: "set (map fst ((x, val r) # out)) = ?S" using out(3) by simp
    have s4: "\<forall>p\<in>set ((x, val r) # out). snd p = shadow_val (base_items r) (delta_items r) (fst p)"
      using out(4) ex(2) by simp
    from s1 s2 s3 s4 show ?thesis by blast
  qed
qed

lemma ForwardScan_visible:
  assumes "wf_items it"
  shows "\<exists>out. ForwardScan it = Some out \<and> sorted_wrt (<) (map fst out) \<and>
           set (map fst out) = {v. vis it v} \<and>
           (\<forall>p\<in>set out. snd p = shadow_val (base_items it) (delta_items it) (fst p))"
proof -
  let ?r = "SeekToFirst it"
  have p: "fpost it {v. vis it v} ?r" using assms by (rule SeekToFirst_fpost)
  from fpost_items[OF p] have it: "base_items ?r = base_items it" "delta_items ?r = delta_items it"
    by simp_all
  have vis': "vis ?r = vis it" using it by (rule same_items_vis)
  have wf': "wf_items ?r" using assms same_items_wf[OF it] by simp
  have p': "fpost ?r {v. vis ?r v \<and> True} ?r" using fpost_self[OF p] by (simp add: vis')
  have "card {v. vis ?r v \<and> True} \<le> length (base_items ?r) + length (delta_items ?r)"
    by (rule vis_card)
  then have c: "card {v. vis ?r v \<and> True} < Suc (length (base_items it) + length (delta_items it))"
    by (simp add: it)
  from scan_loop_canonical[OF wf' upc_True p' c] show ?thesis
    by (simp add: ForwardScan_def vis' it)
qed

lemma shadow_val_delta_mem:
  assumes "sorted_wrt (<) (map entry_key ds)" "e \<in> set ds"
  shows "shadow_val bs ds (entry_key e) = entry_value e"
proof -
  from assms(2) obtain j where "j < length ds" "ds ! j = e" by (auto simp: in_set_conv_nth)
  with shadow_val_delta[OF assms(1), of j bs] show ?thesis by simp
qed

lemma shadow_val_base_mem:
  assumes "sorted_wrt (<) (map fst bs)" "k \<in> fst ` set bs" "k \<notin> entry_key ` set ds"
  shows "(k, shadow_val bs ds k) \<in> set bs"
proof -
  from assms(2) obtain i where i: "i < length bs" "fst (bs ! i) = k"
    by (auto simp: in_set_conv_nth)
  with shadow_val_base[OF assms(1), of i ds] assms(3) have "shadow_val bs ds k = snd (bs ! i)"
    by simp
  with i show ?thesis by (metis nth_mem prod.collapse)
qed

lemma visible_iff:
  assumes "sorted_wrt (<) (map entry_key ds)"
  shows "visible bs ds x \<longleftrightarrow>
     x \<in> (fst ` set bs \<union> entry_key ` set ds) - {entry_key e |e. e \<in> set ds \<and> is_delete e}"
proof -
  from assms have d: "distinct (map entry_key ds)" by (simp add: strict_sorted_iff)
  have u: "e = e'" if "e \<in> set ds" "e' \<in> set ds" "entry_key e = entry_key e'" for e e'
    using d that by (meson distinct_map inj_onD)
  show ?thesis unfolding visible_def using u by blast
qed

lemma merged_scan_complete:
  assumes "sorted_wrt (<) (map fst (base_items it))"
    and "sorted_wrt (<) (map entry_key (delta_items it))"
  shows "\<exists>out. ForwardScan it = Some out \<and> sorted_wrt (<) (map fst out) \<and>
     set (map fst out) =
       (fst ` set (base_items it) \<union> entry_key ` set (delta_items it)) -
       {entry_key e |e. e \<in> set (delta_items it) \<and> is_delete e} \<and>
     (\<forall>(k, v)\<in>set out.
        (\<forall>e\<in>set (delta_items it). entry_key e = k \<longrightarrow> v = entry_value e) \<and>
        (k \<notin> entry_key ` set (delta_items it) \<longrightarrow> (k, v) \<in> set (base_items it)))"
proof -
  let ?bs = "base_items it" and ?ds = "delta_items it"
  have wf: "wf_items it" using assms by (simp add: wf_items_def bkeys_def dkeys_def)
  from ForwardScan_visible[OF wf] obtain out where out: "ForwardScan it = Some out"
    "sorted_wrt (<) (map fst out)" "set (map fst out) = {v. vis it v}"
    "\<forall>p\<in>set out. snd p = shadow_val ?bs ?ds (fst p)" by blast
  have s: "set (map fst out) =
       (fst ` set ?bs \<union> entry_key ` set ?ds) - {entry_key e |e. e \<in> set ?ds \<and> is_delete e}"
    unfolding out(3) vis_def using visible_iff[OF assms(2), of ?bs] by blast
  have v: "(\<forall>e\<in>set ?ds. entry_key e = k \<longrightarrow> v = entry_value e) \<and>
        (k \<notin> entry_key ` set ?ds \<longrightarrow> (k, v) \<in> set ?bs)" if kv: "(k, v) \<in> set out" for k v
  proof -
    from out(4) kv have ve: "v = shadow_val ?bs ?ds k" by force
    from kv have "k \<in> set (map fst out)" by force
    with s have km: "k \<in> fst ` set ?bs \<union> entry_key ` set ?ds" by blast
    show ?thesis
    proof (intro conjI ballI impI)
      fix e assume "e \<in> set ?ds" "entry_key e = k"
      with shadow_val_delta_mem[OF assms(2), of e ?bs] ve show "v = entry_value e" by simp
    next
      assume n: "k \<notin> entry_key ` set ?ds"
      with km have "k \<in> fst ` set ?bs" by blast
      from shadow_val_base_mem[OF assms(1) this n] ve show "(k, v) \<in> set ?bs" by simp
    qed
  qed
  from out(1,2) s v show ?thesis by blast
qed

lemma merged_scan_tombstone_masking:
  "ForwardScan tombstone_masking = Some [(''a'', ''X''), (''c'', ''Z2'')]"
  by code_simp






lemma EncodedSize_pos: "0 < EncodedSize r"
  by (simp add: EncodedSize_def)

lemma located_fst_ge: "(o', r) \<in> set (located off rs) \<Longrightarrow> off \<le> o'"
proof (induction rs arbitrary: off)
  case Nil then show ?case by simp
next
  case (Cons a rs)
  then show ?case by (auto dest!: Cons.IH)
qed

lemma located_fst_less:
  "(o', r) \<in> set (located off rs) \<Longrightarrow> o' < off + sum_list (map EncodedSize rs)"
proof (induction rs arbitrary: off)
  case Nil then show ?case by simp
next
  case (Cons a rs)
  from Cons.prems have "(o' = off \<and> r = a) \<or> (o', r) \<in> set (located (off + EncodedSize a) rs)"
    by auto
  then show ?case
  proof
    assume "o' = off \<and> r = a"
    then show ?thesis using EncodedSize_pos[of a] by simp
  next
    assume "(o', r) \<in> set (located (off + EncodedSize a) rs)"
    from Cons.IH[OF this] show ?thesis by simp
  qed
qed

lemma located_append:
  "located off (rs @ ss) = located off rs @ located (off + sum_list (map EncodedSize rs)) ss"
  by (induction rs arbitrary: off) (simp_all add: add.assoc)

lemma map_of_located_None:
  "off + sum_list (map EncodedSize rs) \<le> o' \<Longrightarrow> map_of (located off rs) o' = None"
  using located_fst_less[of o' _ off rs] by (force simp: map_of_eq_None_iff)

lemma record_at_append:
  assumes "wb_records wb' = wb_records wb @ [r]"
  shows "record_at wb' off = (if off = GetDataSize wb then Some r else record_at wb off)"
proof -
  let ?sz = "sum_list (map EncodedSize (wb_records wb))"
  have "map_of (located kHeader (wb_records wb')) off =
      (map_of [(kHeader + ?sz, r)] ++ map_of (located kHeader (wb_records wb))) off"
    by (simp add: assms located_append map_of_append del: map_of.simps)
  also have "\<dots> = (if off = GetDataSize wb then Some r else record_at wb off)"
    using map_of_located_None[of kHeader "wb_records wb" off]
    by (auto simp: map_add_def GetDataSize_def record_at_def split: option.splits)
  finally show ?thesis by (simp add: record_at_def)
qed

lemma record_at_bound: "record_at wb off = Some r \<Longrightarrow> kHeader \<le> off \<and> off < GetDataSize wb"
  using located_fst_ge[of off r kHeader "wb_records wb"] located_fst_less[of off r kHeader "wb_records wb"]
  by (auto simp: record_at_def GetDataSize_def dest!: map_of_SomeD)

lemma entry_before_key: "entry_before e (KeyInCf c k) \<longleftrightarrow> ekey e < (c, k)"
  by (auto simp: entry_before_def ekey_def)

lemma entry_not_after_key: "entry_not_after e (KeyInCf c k) \<longleftrightarrow> ekey e \<le> (c, k)"
  by (auto simp: entry_not_after_def ekey_def)

lemma index_Seek_le: "index_Seek idx p \<le> length idx"
  by (simp add: index_Seek_def length_takeWhile_le)

lemma index_Seek_before: "i < index_Seek idx (KeyInCf c k) \<Longrightarrow> ekey (idx ! i) < (c, k)"
  using takeWhile_prefix_holds[of i "\<lambda>e. entry_before e (KeyInCf c k)" idx]
  by (simp add: index_Seek_def entry_before_key)

lemma index_Seek_at:
  "index_Seek idx (KeyInCf c k) < length idx \<Longrightarrow> (c, k) \<le> ekey (idx ! index_Seek idx (KeyInCf c k))"
  using nth_length_takeWhile[of "\<lambda>e. entry_before e (KeyInCf c k)" idx]
  by (simp add: index_Seek_def entry_before_key not_less)

lemma index_Seek_finds:
  assumes "sorted (map ekey idx)"
  shows "(\<exists>e\<in>set idx. ekey e = (c, k)) \<longleftrightarrow>
     (index_Seek idx (KeyInCf c k) < length idx \<and> ekey (idx ! index_Seek idx (KeyInCf c k)) = (c, k))"
proof
  let ?p = "index_Seek idx (KeyInCf c k)"
  assume "\<exists>e\<in>set idx. ekey e = (c, k)"
  then obtain a where a: "a < length idx" "ekey (idx ! a) = (c, k)" by (auto simp: in_set_conv_nth)
  have pa: "?p \<le> a"
  proof (rule ccontr)
    assume "\<not> ?p \<le> a"
    then have "a < ?p" by simp
    from index_Seek_before[OF this] a(2) show False by simp
  qed
  with a have pl: "?p < length idx" by simp
  from assms pa a(1) have "map ekey idx ! ?p \<le> map ekey idx ! a"
    by (intro sorted_nth_mono) simp_all
  with pl a have "ekey (idx ! ?p) \<le> (c, k)" by simp
  with index_Seek_at[OF pl] pl show "?p < length idx \<and> ekey (idx ! ?p) = (c, k)" by simp
next
  assume "index_Seek idx (KeyInCf c k) < length idx \<and> ekey (idx ! index_Seek idx (KeyInCf c k)) = (c, k)"
  then show "\<exists>e\<in>set idx. ekey e = (c, k)" by (meson nth_mem)
qed

lemma Compare_zero: "Compare a b = 0 \<longleftrightarrow> a = b"
  by (auto simp: Compare_def)

lemma entries_consistentD:
  assumes "entries_consistent rep" "e \<in> set (entry_index rep)"
  shows "\<exists>r. record_at (write_batch rep) (offset e) = Some r \<and>
           rec_key r = ie_key e \<and> rec_cf r = column_family e \<and> indexed_tag (rec_tag r)"
  using assms
  by (auto simp: entries_consistent_def list_all_iff entry_matches_def split: option.splits)

lemma entries_consistentI:
  assumes "\<And>e. e \<in> set (entry_index rep) \<Longrightarrow>
     \<exists>r. record_at (write_batch rep) (offset e) = Some r \<and>
           rec_key r = ie_key e \<and> rec_cf r = column_family e \<and> indexed_tag (rec_tag r)"
  shows "entries_consistent rep"
  unfolding entries_consistent_def list_all_iff
proof
  fix e assume "e \<in> set (entry_index rep)"
  from assms[OF this] show "entry_matches (write_batch rep) e"
    by (auto simp: entry_matches_def)
qed

lemma decode_entry_key:
  assumes "entries_consistent rep" "e \<in> set (entry_index rep)"
  shows "entry_key (decode_entry rep e) = ie_key e"
  using entries_consistentD[OF assms]
  by (auto simp: decode_entry_def GetEntryFromDataOffset_def)

lemma UpdateExisting_char:
  assumes "entries_consistent rep"
  shows "UpdateExistingEntryWithCfId rep cf k =
     (let p = index_Seek (entry_index rep) (KeyInCf cf k) in
      if overwrite_key rep \<and> p < length (entry_index rep) \<and> ekey (entry_index rep ! p) = (cf, k)
      then (True, rep\<lparr>obsolete_offsets := obsolete_offsets rep @ [offset (entry_index rep ! p)],
                       entry_index := (entry_index rep)
                          [p := (entry_index rep ! p)\<lparr>offset := last_entry_offset rep\<rparr>]\<rparr>)
      else (False, rep))"
proof -
  let ?p = "index_Seek (entry_index rep) (KeyInCf cf k)"
  have "entry_key (decode_entry rep (entry_index rep ! ?p)) = ie_key (entry_index rep ! ?p)"
    if "?p < length (entry_index rep)"
    using decode_entry_key[OF assms] that by simp
  then show ?thesis
    by (auto simp: UpdateExistingEntryWithCfId_def Let_def WBWI_Seek_def WBWI_Valid_def
        WBWI_Entry_def GetRawEntry_def it_valid_def Compare_zero ekey_def)
qed

lemma AddOrUpdateIndex_char:
  assumes "entries_consistent rep"
    and "record_at (write_batch rep) (last_entry_offset rep) = Some r" "rec_key r = k"
  shows "AddOrUpdateIndex rep cf k =
     (let p = index_Seek (entry_index rep) (KeyInCf cf k) in
      if overwrite_key rep \<and> p < length (entry_index rep) \<and> ekey (entry_index rep ! p) = (cf, k)
      then rep\<lparr>obsolete_offsets := obsolete_offsets rep @ [offset (entry_index rep ! p)],
               entry_index := idx_update (overwrite_key rep) (entry_index rep) (last_entry_offset rep) cf k\<rparr>
      else rep\<lparr>entry_index := idx_update (overwrite_key rep) (entry_index rep) (last_entry_offset rep) cf k\<rparr>)"
  using assms(2,3)
  by (auto simp: AddOrUpdateIndex_def UpdateExisting_char[OF assms(1)] Let_def idx_update_def
      AddNewEntry_def ReadKeyFromWriteBatchEntry_def)

lemma sorted_insert_after:
  fixes a :: "'a::linorder"
  shows "sorted ks \<Longrightarrow> sorted (takeWhile (\<lambda>x. x \<le> a) ks @ a # dropWhile (\<lambda>x. x \<le> a) ks)"
proof (induction ks)
  case Nil then show ?case by simp
next
  case (Cons x ks)
  show ?case
  proof (cases "x \<le> a")
    case True
    have "\<forall>y\<in>set (takeWhile (\<lambda>x. x \<le> a) ks @ a # dropWhile (\<lambda>x. x \<le> a) ks). x \<le> y"
    proof
      fix y assume "y \<in> set (takeWhile (\<lambda>x. x \<le> a) ks @ a # dropWhile (\<lambda>x. x \<le> a) ks)"
      then have "y = a \<or> y \<in> set ks"
        by (auto dest: set_takeWhileD set_dropWhileD)
      with True Cons.prems show "x \<le> y" by auto
    qed
    with True Cons show ?thesis by simp
  next
    case False
    with Cons.prems show ?thesis by auto
  qed
qed

lemma map_ekey_Insert:
  "map ekey (index_Insert idx e) =
     takeWhile (\<lambda>x. x \<le> ekey e) (map ekey idx) @ ekey e # dropWhile (\<lambda>x. x \<le> ekey e) (map ekey idx)"
proof -
  have "(\<lambda>x. entry_not_after x (KeyInCf (column_family e) (ie_key e))) = (\<lambda>x. ekey x \<le> ekey e)"
    by (auto simp: entry_not_after_key ekey_def)
  then show ?thesis
    by (simp add: index_Insert_def takeWhile_map dropWhile_map comp_def)
qed

lemma set_index_Insert: "set (index_Insert idx e) = insert e (set idx)"
proof -
  let ?P = "\<lambda>x. entry_not_after x (KeyInCf (column_family e) (ie_key e))"
  have "set (index_Insert idx e) = insert e (set (takeWhile ?P idx) \<union> set (dropWhile ?P idx))"
    unfolding index_Insert_def by simp
  also have "set (takeWhile ?P idx) \<union> set (dropWhile ?P idx) = set (takeWhile ?P idx @ dropWhile ?P idx)"
    by (simp only: set_append)
  finally show ?thesis by simp
qed

lemma sorted_index_Insert: "sorted (map ekey idx) \<Longrightarrow> sorted (map ekey (index_Insert idx e))"
  by (simp add: map_ekey_Insert sorted_insert_after)

lemma distinct_index_Insert:
  assumes "distinct (map ekey idx)" "ekey e \<notin> set (map ekey idx)"
  shows "distinct (map ekey (index_Insert idx e))"
proof -
  let ?P = "\<lambda>x. x \<le> ekey e" and ?ks = "map ekey idx"
  have "distinct (takeWhile ?P ?ks @ dropWhile ?P ?ks)" using assms(1) by simp
  then have d: "distinct (takeWhile ?P ?ks)" "distinct (dropWhile ?P ?ks)"
    "set (takeWhile ?P ?ks) \<inter> set (dropWhile ?P ?ks) = {}"
    by (simp_all only: distinct_append)
  have n: "ekey e \<notin> set (takeWhile ?P ?ks)" "ekey e \<notin> set (dropWhile ?P ?ks)"
    using assms(2) by (auto dest: set_takeWhileD set_dropWhileD)
  from d n show ?thesis unfolding map_ekey_Insert
    by (simp only: distinct_append distinct.simps set_simps) blast
qed

lemma map_ekey_update: "p < length idx \<Longrightarrow> map ekey (idx[p := (idx ! p)\<lparr>offset := off\<rparr>]) = map ekey idx"
  by (simp add: map_update ekey_def list_update_same_conv)

lemma idx_update_sorted:
  assumes "sorted (map ekey idx)"
  shows "sorted (map ekey (idx_update ow idx off cf k))"
  using assms by (auto simp: idx_update_def Let_def map_ekey_update sorted_index_Insert)

lemma idx_update_distinct:
  assumes "sorted (map ekey idx)" "distinct (map ekey idx)"
  shows "distinct (map ekey (idx_update True idx off cf k))"
proof -
  let ?p = "index_Seek idx (KeyInCf cf k)"
  show ?thesis
  proof (cases "?p < length idx \<and> ekey (idx ! ?p) = (cf, k)")
    case True
    with assms(2) show ?thesis by (simp add: idx_update_def Let_def map_ekey_update)
  next
    case False
    with index_Seek_finds[OF assms(1), of cf k] have "(cf, k) \<notin> set (map ekey idx)" by auto
    then have "distinct (map ekey (index_Insert idx \<lparr>offset = off, column_family = cf, ie_key = k\<rparr>))"
      using assms(2) by (intro distinct_index_Insert) (simp_all add: ekey_def)
    with False show ?thesis by (auto simp: idx_update_def Let_def)
  qed
qed

lemma idx_update_set:
  "e \<in> set (idx_update ow idx off cf k) \<Longrightarrow>
     e \<in> set idx \<or> (offset e = off \<and> column_family e = cf \<and> ie_key e = k)"
proof -
  assume a: "e \<in> set (idx_update ow idx off cf k)"
  let ?p = "index_Seek idx (KeyInCf cf k)"
  show ?thesis
  proof (cases "ow \<and> ?p < length idx \<and> ekey (idx ! ?p) = (cf, k)")
    case True
    with a have "e \<in> set (idx[?p := (idx ! ?p)\<lparr>offset := off\<rparr>])" by (simp add: idx_update_def Let_def)
    then have "e \<in> set idx \<or> e = (idx ! ?p)\<lparr>offset := off\<rparr>"
      using set_update_subset_insert[of idx ?p "(idx ! ?p)\<lparr>offset := off\<rparr>"] by auto
    with True show ?thesis by (auto simp: ekey_def)
  next
    case False
    with a have "e \<in> insert \<lparr>offset = off, column_family = cf, ie_key = k\<rparr> (set idx)"
      by (auto simp: idx_update_def Let_def set_index_Insert)
    then show ?thesis by auto
  qed
qed

lemma Put_mutate:
  "Put rep cf k v = mutate rep \<lparr>rec_tag = kTypeValue, rec_cf = cf, rec_key = k, rec_value = v\<rparr>"
  by (simp add: Put_def mutate_def wb_Put_def Let_def split: prod.splits)

lemma Delete_mutate:
  "Delete rep cf k = mutate rep \<lparr>rec_tag = kTypeDeletion, rec_cf = cf, rec_key = k, rec_value = []\<rparr>"
  by (simp add: Delete_def mutate_def wb_Delete_def Let_def split: prod.splits)

lemma SingleDelete_mutate:
  "SingleDelete rep cf k =
     mutate rep \<lparr>rec_tag = kTypeSingleDeletion, rec_cf = cf, rec_key = k, rec_value = []\<rparr>"
  by (simp add: SingleDelete_def mutate_def wb_SingleDelete_def Let_def split: prod.splits)

lemma DeleteRange_mutate:
  "DeleteRange rep cf b e =
     mutate rep \<lparr>rec_tag = kTypeRangeDeletion, rec_cf = cf, rec_key = b, rec_value = e\<rparr>"
  by (simp add: DeleteRange_def mutate_def wb_DeleteRange_def Let_def split: prod.splits)

lemma Merge_mutate:
  "snd (Merge rep cf k v) =
     snd (mutate rep \<lparr>rec_tag = kTypeMerge, rec_cf = cf, rec_key = k, rec_value = v\<rparr>)"
  by (simp add: Merge_def mutate_def wb_Merge_def Let_def split: prod.splits)

lemma wb_append_fits:
  "wb_append wb r True = (if fits wb r then (OK, appended wb r) else (MemoryLimit, wb))"
  by (simp add: wb_append_def fits_def appended_def)

lemma record_at_appended:
  "record_at (appended wb r) off = (if off = GetDataSize wb then Some r else record_at wb off)"
  by (rule record_at_append) (simp add: appended_def)

lemma entries_consistent_appended:
  assumes "entries_consistent rep"
    and "entry_index rep' = entry_index rep" "write_batch rep' = appended (write_batch rep) r"
  shows "entries_consistent rep'"
proof (rule entries_consistentI)
  fix e
  assume "e \<in> set (entry_index rep')"
  then have e: "e \<in> set (entry_index rep)" by (simp add: assms(2))
  from entries_consistentD[OF assms(1) e] obtain r' where
    r': "record_at (write_batch rep) (offset e) = Some r'" "rec_key r' = ie_key e"
        "rec_cf r' = column_family e" "indexed_tag (rec_tag r')" by blast
  from record_at_bound[OF r'(1)] have "offset e \<noteq> GetDataSize (write_batch rep)" by simp
  with r' show "\<exists>r'. record_at (write_batch rep') (offset e) = Some r' \<and>
           rec_key r' = ie_key e \<and> rec_cf r' = column_family e \<and> indexed_tag (rec_tag r')"
    by (simp add: record_at_appended assms(3))
qed

lemma updates_entry_live:
  assumes "index_sorted rep"
  shows "updates_entry rep cf k \<longleftrightarrow> overwrite_key rep \<and> has_live_entry rep cf k"
proof -
  from assms have s: "sorted (map ekey (entry_index rep))" by (simp add: index_sorted_def)
  have "has_live_entry rep cf k \<longleftrightarrow> (\<exists>e\<in>set (entry_index rep). ekey e = (cf, k))"
    by (auto simp: has_live_entry_def ekey_def)
  with index_Seek_finds[OF s, of cf k] show ?thesis
    by (auto simp: updates_entry_def)
qed

lemma mutate_char:
  assumes "entries_consistent rep"
  shows "mutate rep r =
     (if fits (write_batch rep) r then
        (OK, rep\<lparr>write_batch := appended (write_batch rep) r,
                 last_entry_offset := GetDataSize (write_batch rep),
                 entry_index := idx_update (overwrite_key rep) (entry_index rep)
                                  (GetDataSize (write_batch rep)) (rec_cf r) (rec_key r),
                 obsolete_offsets :=
                   (if updates_entry rep (rec_cf r) (rec_key r)
                    then obsolete_offsets rep @
                      [offset (entry_index rep ! index_Seek (entry_index rep) (KeyInCf (rec_cf r) (rec_key r)))]
                    else obsolete_offsets rep)\<rparr>)
      else (MemoryLimit, rep\<lparr>last_entry_offset := GetDataSize (write_batch rep)\<rparr>))"
proof (cases "fits (write_batch rep) r")
  case False
  then show ?thesis
    by (simp add: mutate_def SetLastEntryOffset_def wb_append_fits)
next
  case True
  let ?rep1 = "(SetLastEntryOffset rep)\<lparr>write_batch := appended (write_batch rep) r\<rparr>"
  have c: "entries_consistent ?rep1"
    by (rule entries_consistent_appended[OF assms]) (simp_all add: SetLastEntryOffset_def)
  have r: "record_at (write_batch ?rep1) (last_entry_offset ?rep1) = Some r"
    by (simp add: record_at_appended SetLastEntryOffset_def)
  have m: "mutate rep r = (OK, AddOrUpdateIndex ?rep1 (rec_cf r) (rec_key r))"
    using True by (simp add: mutate_def wb_append_fits Let_def SetLastEntryOffset_def)
  show ?thesis
    unfolding m AddOrUpdateIndex_char[OF c r refl]
    using True by (simp add: Let_def updates_entry_def SetLastEntryOffset_def)
qed

lemma replay_snoc: "replay ow (lrs @ [lr]) = replay_step ow (replay ow lrs) lr"
  by (simp add: replay_def)

lemma located_snoc:
  "located kHeader (wb_records wb @ [r]) = located kHeader (wb_records wb) @ [(GetDataSize wb, r)]"
  by (simp add: located_append GetDataSize_def)

lemma entries_consistent_idx_update:
  assumes c: "entries_consistent rep"
    and wb: "write_batch rep' = appended (write_batch rep) r"
    and idx: "entry_index rep' = idx_update ow (entry_index rep) (GetDataSize (write_batch rep)) (rec_cf r) (rec_key r)"
    and t: "indexed_tag (rec_tag r)"
  shows "entries_consistent rep'"
proof (rule entries_consistentI)
  fix e
  assume "e \<in> set (entry_index rep')"
  from idx_update_set[OF this[unfolded idx]]
  consider "e \<in> set (entry_index rep)"
    | "offset e = GetDataSize (write_batch rep)" "column_family e = rec_cf r" "ie_key e = rec_key r"
    by blast
  then show "\<exists>r'. record_at (write_batch rep') (offset e) = Some r' \<and>
           rec_key r' = ie_key e \<and> rec_cf r' = column_family e \<and> indexed_tag (rec_tag r')"
  proof cases
    case 1
    from entries_consistentD[OF c 1] obtain r' where
      r': "record_at (write_batch rep) (offset e) = Some r'" "rec_key r' = ie_key e"
          "rec_cf r' = column_family e" "indexed_tag (rec_tag r')" by blast
    from record_at_bound[OF r'(1)] have "offset e \<noteq> GetDataSize (write_batch rep)" by simp
    with r' show ?thesis by (simp add: record_at_appended wb)
  next
    case 2
    with t show ?thesis by (simp add: record_at_appended wb)
  qed
qed

lemma index_sorted_idx_update:
  assumes "index_sorted rep" "overwrite_key rep' = overwrite_key rep"
    and "entry_index rep' = idx_update (overwrite_key rep) (entry_index rep) off cf k"
  shows "index_sorted rep'"
  using assms idx_update_sorted[of "entry_index rep" "overwrite_key rep" off cf k]
    idx_update_distinct[of "entry_index rep" off cf k]
  by (auto simp: index_sorted_def)

lemma batch_inv_cong:
  assumes "entry_index rep' = entry_index rep" "overwrite_key rep' = overwrite_key rep"
    and "wb_records (write_batch rep') = wb_records (write_batch rep)"
    and "wb_count (write_batch rep') = wb_count (write_batch rep)"
  shows "batch_inv rep' = batch_inv rep"
  by (simp add: batch_inv_def entries_consistent_def index_sorted_def entry_matches_def
      record_at_def assms cong: list.pred_cong)

lemma mutate_fields:
  assumes "entries_consistent rep"
  shows "overwrite_key (snd (mutate rep r)) = overwrite_key rep"
    and "allow_dup_merge (snd (mutate rep r)) = allow_dup_merge rep"
    and "wb_save_points (write_batch (snd (mutate rep r))) = wb_save_points (write_batch rep)"
    and "wb_max_bytes (write_batch (snd (mutate rep r))) = wb_max_bytes (write_batch rep)"
    and "\<exists>more. wb_records (write_batch (snd (mutate rep r))) = wb_records (write_batch rep) @ more"
  by (simp_all add: mutate_char[OF assms] appended_def)

lemma mutate_batch_inv:
  assumes inv: "batch_inv rep" and t: "indexed_tag (rec_tag r)"
  shows "batch_inv (snd (mutate rep r))"
proof -
  from inv have c: "entries_consistent rep" and s: "index_sorted rep"
    and j: "entry_index rep = replay (overwrite_key rep) (located kHeader (wb_records (write_batch rep)))"
    and k: "wb_count (write_batch rep) =
       length (filter (\<lambda>r. indexed_tag (rec_tag r)) (wb_records (write_batch rep)))"
    by (simp_all add: batch_inv_def)
  show ?thesis
  proof (cases "fits (write_batch rep) r")
    case False
    then have m: "snd (mutate rep r) = rep\<lparr>last_entry_offset := GetDataSize (write_batch rep)\<rparr>"
      by (simp add: mutate_char[OF c])
    from inv show ?thesis unfolding m
      by (subst batch_inv_cong[of _ rep]) simp_all
  next
    case True
    let ?rep' = "snd (mutate rep r)"
    have wb: "write_batch ?rep' = appended (write_batch rep) r"
      and ow: "overwrite_key ?rep' = overwrite_key rep"
      and idx: "entry_index ?rep' = idx_update (overwrite_key rep) (entry_index rep)
                  (GetDataSize (write_batch rep)) (rec_cf r) (rec_key r)"
      using True by (simp_all add: mutate_char[OF c])
    have 1: "entry_index ?rep' =
        replay (overwrite_key ?rep') (located kHeader (wb_records (write_batch ?rep')))"
      unfolding wb ow idx using t
      by (simp add: appended_def located_snoc replay_snoc replay_step_def j[symmetric])
    have 2: "wb_count (write_batch ?rep') =
       length (filter (\<lambda>r. indexed_tag (rec_tag r)) (wb_records (write_batch ?rep')))"
      unfolding wb using t k by (simp add: appended_def)
    have 3: "entries_consistent ?rep'"
      by (rule entries_consistent_idx_update[OF c wb idx t])
    have 4: "index_sorted ?rep'"
      by (rule index_sorted_idx_update[OF s ow idx])
    from 1 2 3 4 show ?thesis by (simp add: batch_inv_def)
  qed
qed

lemma PutLogData_char:
  "snd (PutLogData rep blob) = rep \<or>
   snd (PutLogData rep blob) =
     rep\<lparr>write_batch := (write_batch rep)\<lparr>wb_records := wb_records (write_batch rep) @
        [\<lparr>rec_tag = kTypeLogData, rec_cf = 0, rec_key = [], rec_value = blob\<rparr>]\<rparr>\<rparr>"
  by (simp add: PutLogData_def wb_PutLogData_def wb_append_def)

lemma entries_consistent_log_data:
  assumes "entries_consistent rep"
    and "entry_index rep' = entry_index rep"
    and "wb_records (write_batch rep') = wb_records (write_batch rep) @ [r]"
  shows "entries_consistent rep'"
proof (rule entries_consistentI)
  fix e
  assume "e \<in> set (entry_index rep')"
  then have e: "e \<in> set (entry_index rep)" by (simp add: assms(2))
  from entries_consistentD[OF assms(1) e] obtain r' where
    r': "record_at (write_batch rep) (offset e) = Some r'" "rec_key r' = ie_key e"
        "rec_cf r' = column_family e" "indexed_tag (rec_tag r')" by blast
  from record_at_bound[OF r'(1)] have "offset e \<noteq> GetDataSize (write_batch rep)" by simp
  with r' show "\<exists>r'. record_at (write_batch rep') (offset e) = Some r' \<and>
           rec_key r' = ie_key e \<and> rec_cf r' = column_family e \<and> indexed_tag (rec_tag r')"
    by (simp add: record_at_append[OF assms(3)])
qed

lemma PutLogData_batch_inv:
  assumes inv: "batch_inv rep"
  shows "batch_inv (snd (PutLogData rep blob))"
proof -
  let ?r = "\<lparr>rec_tag = kTypeLogData, rec_cf = 0, rec_key = [], rec_value = blob\<rparr>"
  let ?rep' = "rep\<lparr>write_batch := (write_batch rep)\<lparr>wb_records := wb_records (write_batch rep) @ [?r]\<rparr>\<rparr>"
  from inv have c: "entries_consistent rep" by (simp add: batch_inv_def)
  have c': "entries_consistent ?rep'"
    by (rule entries_consistent_log_data[OF c]) simp_all
  from inv have j: "entry_index rep = replay (overwrite_key rep) (located kHeader (wb_records (write_batch rep)))"
    and k: "wb_count (write_batch rep) =
       length (filter (\<lambda>r. indexed_tag (rec_tag r)) (wb_records (write_batch rep)))"
    and s: "index_sorted rep"
    by (simp_all add: batch_inv_def)
  have 1: "entry_index ?rep' = replay (overwrite_key ?rep') (located kHeader (wb_records (write_batch ?rep')))"
    by (simp add: located_snoc replay_snoc replay_step_def indexed_tag_def j[symmetric])
  have 2: "wb_count (write_batch ?rep') =
       length (filter (\<lambda>r. indexed_tag (rec_tag r)) (wb_records (write_batch ?rep')))"
    using k by (simp add: indexed_tag_def)
  have 4: "index_sorted ?rep'" using s by (simp add: index_sorted_def)
  have "batch_inv ?rep'"
    unfolding batch_inv_def using 1 2 c' 4 by blast
  with inv PutLogData_char[of rep blob] show ?thesis by auto
qed

lemma PutLogData_fields:
  shows "overwrite_key (snd (PutLogData rep blob)) = overwrite_key rep"
    and "allow_dup_merge (snd (PutLogData rep blob)) = allow_dup_merge rep"
    and "wb_save_points (write_batch (snd (PutLogData rep blob))) = wb_save_points (write_batch rep)"
    and "wb_max_bytes (write_batch (snd (PutLogData rep blob))) = wb_max_bytes (write_batch rep)"
    and "\<exists>more. wb_records (write_batch (snd (PutLogData rep blob))) = wb_records (write_batch rep) @ more"
  by (simp_all add: PutLogData_def wb_PutLogData_def wb_append_def)

lemma apply_op_cases:
  "(\<exists>r. indexed_tag (rec_tag r) \<and> apply_op rep op = snd (mutate rep r)) \<or>
   (\<exists>blob. apply_op rep op = snd (PutLogData rep blob))"
proof (cases op)
  case (OpPut cf k v)
  then show ?thesis by (auto simp: Put_mutate indexed_tag_def intro!: exI[where x = "\<lparr>rec_tag = kTypeValue, rec_cf = cf, rec_key = k, rec_value = v\<rparr>"])
next
  case (OpDelete cf k)
  then show ?thesis by (auto simp: Delete_mutate indexed_tag_def intro!: exI[where x = "\<lparr>rec_tag = kTypeDeletion, rec_cf = cf, rec_key = k, rec_value = []\<rparr>"])
next
  case (OpSingleDelete cf k)
  then show ?thesis by (auto simp: SingleDelete_mutate indexed_tag_def intro!: exI[where x = "\<lparr>rec_tag = kTypeSingleDeletion, rec_cf = cf, rec_key = k, rec_value = []\<rparr>"])
next
  case (OpDeleteRange cf b e)
  then show ?thesis by (auto simp: DeleteRange_mutate indexed_tag_def intro!: exI[where x = "\<lparr>rec_tag = kTypeRangeDeletion, rec_cf = cf, rec_key = b, rec_value = e\<rparr>"])
next
  case (OpMerge cf k v)
  then show ?thesis by (auto simp: Merge_mutate indexed_tag_def intro!: exI[where x = "\<lparr>rec_tag = kTypeMerge, rec_cf = cf, rec_key = k, rec_value = v\<rparr>"])
next
  case (OpPutLogData blob)
  then show ?thesis by auto
qed

lemma apply_op_batch_inv: "batch_inv rep \<Longrightarrow> batch_inv (apply_op rep op)"
  using apply_op_cases[of rep op] mutate_batch_inv PutLogData_batch_inv by metis

lemma apply_op_fields:
  assumes "batch_inv rep"
  shows "overwrite_key (apply_op rep op) = overwrite_key rep"
    and "allow_dup_merge (apply_op rep op) = allow_dup_merge rep"
    and "wb_save_points (write_batch (apply_op rep op)) = wb_save_points (write_batch rep)"
    and "wb_max_bytes (write_batch (apply_op rep op)) = wb_max_bytes (write_batch rep)"
    and "\<exists>more. wb_records (write_batch (apply_op rep op)) = wb_records (write_batch rep) @ more"
proof -
  from assms have c: "entries_consistent rep" by (simp add: batch_inv_def)
  note f = mutate_fields[OF c] PutLogData_fields
  show "overwrite_key (apply_op rep op) = overwrite_key rep"
    using apply_op_cases[of rep op] f(1,6) by metis
  show "allow_dup_merge (apply_op rep op) = allow_dup_merge rep"
    using apply_op_cases[of rep op] f(2,7) by metis
  show "wb_save_points (write_batch (apply_op rep op)) = wb_save_points (write_batch rep)"
    using apply_op_cases[of rep op] f(3,8) by metis
  show "wb_max_bytes (write_batch (apply_op rep op)) = wb_max_bytes (write_batch rep)"
    using apply_op_cases[of rep op] f(4,9) by metis
  show "\<exists>more. wb_records (write_batch (apply_op rep op)) = wb_records (write_batch rep) @ more"
    using apply_op_cases[of rep op] f(5,10) by metis
qed

lemma apply_ops_inv:
  assumes "batch_inv rep"
  shows "batch_inv (apply_ops rep ops) \<and>
     overwrite_key (apply_ops rep ops) = overwrite_key rep \<and>
     allow_dup_merge (apply_ops rep ops) = allow_dup_merge rep \<and>
     wb_save_points (write_batch (apply_ops rep ops)) = wb_save_points (write_batch rep) \<and>
     wb_max_bytes (write_batch (apply_ops rep ops)) = wb_max_bytes (write_batch rep) \<and>
     (\<exists>more. wb_records (write_batch (apply_ops rep ops)) = wb_records (write_batch rep) @ more)"
  using assms
proof (induction ops arbitrary: rep)
  case Nil
  then show ?case by (simp add: apply_ops_def)
next
  case (Cons op ops)
  have i: "batch_inv (apply_op rep op)" by (rule apply_op_batch_inv[OF Cons.prems])
  note f = apply_op_fields[OF Cons.prems, of op]
  from f(5) obtain m1 where m1: "wb_records (write_batch (apply_op rep op)) = wb_records (write_batch rep) @ m1" by blast
  from Cons.IH[OF i] obtain m2 where
    ih: "batch_inv (apply_ops (apply_op rep op) ops)"
        "overwrite_key (apply_ops (apply_op rep op) ops) = overwrite_key (apply_op rep op)"
        "allow_dup_merge (apply_ops (apply_op rep op) ops) = allow_dup_merge (apply_op rep op)"
        "wb_save_points (write_batch (apply_ops (apply_op rep op) ops)) = wb_save_points (write_batch (apply_op rep op))"
        "wb_max_bytes (write_batch (apply_ops (apply_op rep op) ops)) = wb_max_bytes (write_batch (apply_op rep op))"
        "wb_records (write_batch (apply_ops (apply_op rep op) ops)) = wb_records (write_batch (apply_op rep op)) @ m2"
    by blast
  have e: "apply_ops rep (op # ops) = apply_ops (apply_op rep op) ops" by (simp add: apply_ops_def)
  show ?case unfolding e using ih f(1-4) m1 by simp
qed

lemma empty_batch_inv: "batch_inv (empty_batch ow ad mb)"
  by (simp add: batch_inv_def empty_batch_def replay_def entries_consistent_def index_sorted_def)

lemma Clear_batch_inv: "batch_inv (Clear rep)"
  by (simp add: batch_inv_def Clear_def ClearIndex_def wb_Clear_def replay_def entries_consistent_def index_sorted_def)

lemma SetSavePoint_batch_inv: "batch_inv rep \<Longrightarrow> batch_inv (SetSavePoint rep)"
  by (subst batch_inv_cong[of _ rep]) (simp_all add: SetSavePoint_def wb_SetSavePoint_def)

lemma Merge_by_mutate:
  "Merge rep cf k v =
     (case mutate rep \<lparr>rec_tag = kTypeMerge, rec_cf = cf, rec_key = k, rec_value = v\<rparr> of
        (s, rep2) \<Rightarrow>
          if s = OK \<and> \<not> allow_dup_merge rep2 \<and>
             length (obsolete_offsets rep) \<noteq> length (obsolete_offsets rep2)
          then (NotSupported, rep2) else (s, rep2))"
  by (simp add: Merge_def mutate_def wb_Merge_def Let_def SetLastEntryOffset_def split: prod.splits)

lemma Merge_char:
  assumes "entries_consistent rep"
  shows "fst (Merge rep cf k v) =
     (if \<not> fits (write_batch rep) \<lparr>rec_tag = kTypeMerge, rec_cf = cf, rec_key = k, rec_value = v\<rparr>
      then MemoryLimit
      else if \<not> allow_dup_merge rep \<and> updates_entry rep cf k then NotSupported else OK)"
    and "length (obsolete_offsets (snd (Merge rep cf k v))) =
      (if fits (write_batch rep) \<lparr>rec_tag = kTypeMerge, rec_cf = cf, rec_key = k, rec_value = v\<rparr> \<and>
          updates_entry rep cf k
       then length (obsolete_offsets rep) + 1 else length (obsolete_offsets rep))"
  by (simp_all add: Merge_by_mutate mutate_char[OF assms])

lemma wb_Merge_fits:
  "fst (wb_Merge wb cf k v) =
     (if fits wb \<lparr>rec_tag = kTypeMerge, rec_cf = cf, rec_key = k, rec_value = v\<rparr> then OK else MemoryLimit)"
  by (simp add: wb_Merge_def wb_append_fits)

lemma take_bytes_prefix:
  "take_bytes off (off + sum_list (map EncodedSize rs)) (rs @ ss) = rs"
proof (induction rs arbitrary: off)
  case Nil
  show ?case
  proof (cases ss)
    case Nil then show ?thesis by simp
  next
    case (Cons m ms)
    with EncodedSize_pos[of m] show ?thesis by simp
  qed
next
  case (Cons r rs)
  have "off + sum_list (map EncodedSize (r # rs)) = (off + EncodedSize r) + sum_list (map EncodedSize rs)"
    by simp
  with Cons.IH[of "off + EncodedSize r"] show ?case by (simp add: add.assoc)
qed

lemma located_distinct: "distinct (map fst (located off rs))"
proof (induction rs arbitrary: off)
  case Nil then show ?case by simp
next
  case (Cons r rs)
  have "off \<notin> fst ` set (located (off + EncodedSize r) rs)"
  proof
    assume "off \<in> fst ` set (located (off + EncodedSize r) rs)"
    then obtain r' where "(off, r') \<in> set (located (off + EncodedSize r) rs)" by auto
    from located_fst_ge[OF this] EncodedSize_pos[of r] show False by simp
  qed
  with Cons.IH[of "off + EncodedSize r"] show ?case by simp
qed

lemma record_at_located:
  "(off, r) \<in> set (located kHeader (wb_records wb)) \<Longrightarrow> record_at wb off = Some r"
  unfolding record_at_def by (rule map_of_is_SomeI[OF located_distinct])

lemma replay_step_unindexed:
  "\<forall>lr\<in>set lrs. \<not> indexed_tag (rec_tag (snd lr)) \<Longrightarrow> foldl (replay_step ow) idx lrs = idx"
  by (induction lrs arbitrary: idx) (simp_all add: replay_step_def)

lemma located_snd: "map snd (located off rs) = rs"
  by (induction rs arbitrary: off) simp_all

lemma replay_count_zero:
  assumes "length (filter (\<lambda>r. indexed_tag (rec_tag r)) rs) = 0"
  shows "replay ow (located off rs) = []"
proof -
  from assms have "\<forall>r\<in>set rs. \<not> indexed_tag (rec_tag r)"
    by (simp add: filter_empty_conv)
  then have "\<forall>lr\<in>set (located off rs). \<not> indexed_tag (rec_tag (snd lr))"
    using located_snd[of off rs] by (metis image_eqI set_map)
  then show ?thesis unfolding replay_def by (rule replay_step_unindexed)
qed

lemma decode_entry_cong: "write_batch rep = write_batch rep' \<Longrightarrow> decode_entry rep = decode_entry rep'"
  by (rule ext) (simp add: decode_entry_def)

lemma GetFromBatch_cong:
  assumes "write_batch rep = write_batch rep'" "entry_index rep = entry_index rep'"
  shows "GetFromBatch rep cf k = GetFromBatch rep' cf k"
  by (simp add: GetFromBatch_def GetFromBatch_internal_def entries_for_def
      decode_entry_cong[OF assms(1)] assms(2))

lemma column_entries_cong:
  assumes "write_batch rep = write_batch rep'" "entry_index rep = entry_index rep'"
  shows "column_entries rep cf = column_entries rep' cf"
  by (simp add: column_entries_def decode_entry_cong[OF assms(1)] assms(2))

lemma entries_consistent_reindex:
  assumes c: "entries_consistent rep"
    and wb: "write_batch rep' = write_batch rep"
    and idx: "entry_index rep' = idx_update ow (entry_index rep) off (rec_cf r) (rec_key r)"
    and r: "record_at (write_batch rep) off = Some r"
    and t: "indexed_tag (rec_tag r)"
  shows "entries_consistent rep'"
proof (rule entries_consistentI)
  fix e
  assume "e \<in> set (entry_index rep')"
  from idx_update_set[OF this[unfolded idx]]
  consider "e \<in> set (entry_index rep)"
    | "offset e = off" "column_family e = rec_cf r" "ie_key e = rec_key r"
    by blast
  then show "\<exists>r'. record_at (write_batch rep') (offset e) = Some r' \<and>
           rec_key r' = ie_key e \<and> rec_cf r' = column_family e \<and> indexed_tag (rec_tag r')"
  proof cases
    case 1
    from entries_consistentD[OF c 1] show ?thesis by (simp add: wb)
  next
    case 2
    with r t show ?thesis by (simp add: wb)
  qed
qed

lemma reindex_step:
  assumes c: "entries_consistent rep"
    and r: "record_at (write_batch rep) off = Some r"
    and t: "indexed_tag (rec_tag r)"
  defines "rep2 \<equiv> (case UpdateExistingEntryWithCfId (rep\<lparr>last_entry_offset := off\<rparr>) (rec_cf r) (rec_key r) of
             (True, rep2) \<Rightarrow> rep2
           | (False, rep2) \<Rightarrow> AddNewEntry rep2 (rec_cf r))"
  shows "entry_index rep2 = replay_step (overwrite_key rep) (entry_index rep) (off, r)"
    and "write_batch rep2 = write_batch rep"
    and "overwrite_key rep2 = overwrite_key rep"
    and "allow_dup_merge rep2 = allow_dup_merge rep"
    and "entries_consistent rep2"
proof -
  let ?rep1 = "rep\<lparr>last_entry_offset := off\<rparr>"
  have a: "rep2 = AddOrUpdateIndex ?rep1 (rec_cf r) (rec_key r)"
    by (simp add: rep2_def AddOrUpdateIndex_def)
  have c1: "entries_consistent ?rep1" using c by (simp add: entries_consistent_def)
  have r1: "record_at (write_batch ?rep1) (last_entry_offset ?rep1) = Some r" using r by simp
  note ch = AddOrUpdateIndex_char[OF c1 r1 refl, of "rec_cf r", folded a]
  show i: "entry_index rep2 = replay_step (overwrite_key rep) (entry_index rep) (off, r)"
    using t by (simp add: ch Let_def replay_step_def)
  show w: "write_batch rep2 = write_batch rep" by (simp add: ch Let_def)
  show "overwrite_key rep2 = overwrite_key rep" by (simp add: ch Let_def)
  show "allow_dup_merge rep2 = allow_dup_merge rep" by (simp add: ch Let_def)
  from i t have i': "entry_index rep2 = idx_update (overwrite_key rep) (entry_index rep) off (rec_cf r) (rec_key r)"
    by (simp add: replay_step_def)
  show "entries_consistent rep2"
    by (rule entries_consistent_reindex[OF c w i' r t])
qed

lemma rebuild_loop_char:
  assumes "rebuild_loop lrs found rep = (OK, found', rep')"
    and "entries_consistent rep"
    and "\<forall>lr\<in>set lrs. record_at (write_batch rep) (fst lr) = Some (snd lr)"
  shows "entry_index rep' = foldl (replay_step (overwrite_key rep)) (entry_index rep) lrs \<and>
         write_batch rep' = write_batch rep \<and> overwrite_key rep' = overwrite_key rep \<and>
         allow_dup_merge rep' = allow_dup_merge rep \<and>
         found' = found + length (filter (\<lambda>lr. indexed_tag (rec_tag (snd lr))) lrs)"
  using assms
proof (induction lrs arbitrary: found rep)
  case Nil
  then show ?case by simp
next
  case (Cons lr lrs)
  obtain off r where lr: "lr = (off, r)" by (cases lr)
  let ?A = "{kTypeValue, kTypeDeletion, kTypeSingleDeletion, kTypeMerge}"
  let ?B = "{kTypeLogData, kTypeBeginPrepareXID, kTypeEndPrepareXID,
             kTypeCommitXID, kTypeRollbackXID, kTypeNoop}"
  from Cons.prems(3) lr have rec: "record_at (write_batch rep) off = Some r" by simp
  consider (a) "rec_tag r \<in> ?A" | (b) "rec_tag r \<notin> ?A" "rec_tag r \<in> ?B"
    | (c) "rec_tag r \<notin> ?A" "rec_tag r \<notin> ?B" by blast
  then show ?case
  proof cases
    case a
    then have t: "indexed_tag (rec_tag r)" by (auto simp: indexed_tag_def)
    let ?rep2 = "(case UpdateExistingEntryWithCfId (rep\<lparr>last_entry_offset := off\<rparr>) (rec_cf r) (rec_key r) of
             (True, rep2) \<Rightarrow> rep2
           | (False, rep2) \<Rightarrow> AddNewEntry rep2 (rec_cf r))"
    note st = reindex_step[OF Cons.prems(2) rec t]
    from Cons.prems(1) a have run: "rebuild_loop lrs (found + 1) ?rep2 = (OK, found', rep')"
      by (simp add: lr Let_def)
    have rs: "\<forall>lr\<in>set lrs. record_at (write_batch ?rep2) (fst lr) = Some (snd lr)"
      using Cons.prems(3) by (simp add: st(2))
    from Cons.IH[OF run st(5) rs] show ?thesis
      using t by (simp add: lr st(1,2,3,4))
  next
    case b
    then have t: "\<not> indexed_tag (rec_tag r)" by (auto simp: indexed_tag_def)
    let ?rep1 = "rep\<lparr>last_entry_offset := off\<rparr>"
    from Cons.prems(1) b have run: "rebuild_loop lrs found ?rep1 = (OK, found', rep')"
      by (simp add: lr Let_def)
    have c1: "entries_consistent ?rep1" using Cons.prems(2) by (simp add: entries_consistent_def)
    have rs: "\<forall>lr\<in>set lrs. record_at (write_batch ?rep1) (fst lr) = Some (snd lr)"
      using Cons.prems(3) by simp
    from Cons.IH[OF run c1 rs] show ?thesis
      using t by (simp add: lr replay_step_def)
  next
    case c
    with Cons.prems(1) show ?thesis by (simp add: lr Let_def)
  qed
qed

lemma ReBuildIndex_char:
  assumes ok: "ReBuildIndex rep = (OK, rep')"
    and cnt: "wb_count (write_batch rep) =
       length (filter (\<lambda>r. indexed_tag (rec_tag r)) (wb_records (write_batch rep)))"
  shows "entry_index rep' = replay (overwrite_key rep) (located kHeader (wb_records (write_batch rep))) \<and>
         write_batch rep' = write_batch rep \<and> overwrite_key rep' = overwrite_key rep \<and>
         allow_dup_merge rep' = allow_dup_merge rep"
proof (cases "wb_count (write_batch rep) = 0")
  case True
  with ok have "rep' = ClearIndex rep" by (simp add: ReBuildIndex_def Let_def ClearIndex_def)
  moreover from True cnt have "replay (overwrite_key rep) (located kHeader (wb_records (write_batch rep))) = []"
    by (intro replay_count_zero) simp
  ultimately show ?thesis by (simp add: ClearIndex_def)
next
  case False
  let ?c = "ClearIndex rep"
  obtain s found rep1 where
    run: "rebuild_loop (located kHeader (wb_records (write_batch rep))) 0 ?c = (s, found, rep1)"
    by (cases "rebuild_loop (located kHeader (wb_records (write_batch rep))) 0 ?c") auto
  have wbc: "write_batch ?c = write_batch rep" by (simp add: ClearIndex_def)
  from ok False run have "s = OK \<and> rep1 = rep'"
    by (auto simp: ReBuildIndex_def Let_def GetFirstOffset_def wbc split: if_splits)
  with run have run': "rebuild_loop (located kHeader (wb_records (write_batch rep))) 0 ?c = (OK, found, rep')"
    by simp
  have c: "entries_consistent ?c" by (simp add: entries_consistent_def ClearIndex_def)
  have rs: "\<forall>lr\<in>set (located kHeader (wb_records (write_batch rep))).
              record_at (write_batch ?c) (fst lr) = Some (snd lr)"
    using record_at_located[of _ _ "write_batch rep"] by (auto simp: wbc)
  from rebuild_loop_char[OF run' c rs] show ?thesis
    by (simp add: ClearIndex_def replay_def)
qed

lemma wb_rollback_restores:
  assumes sp: "wb_save_points wb2 = (GetDataSize wb0, wb_count wb0) # wb_save_points wb0"
    and recs: "wb_records wb2 = wb_records wb0 @ ss"
    and mb: "wb_max_bytes wb2 = wb_max_bytes wb0"
  shows "wb_RollbackToSavePoint wb2 = (OK, wb0)"
proof -
  have "take_bytes kHeader (GetDataSize wb0) (wb_records wb0 @ ss) = wb_records wb0"
    unfolding GetDataSize_def by (rule take_bytes_prefix)
  then show ?thesis
    using sp recs mb by (simp add: wb_RollbackToSavePoint_def)
qed

lemma Rollback_char:
  assumes inv: "batch_inv rep0"
    and ok: "RollbackToSavePoint (apply_ops (SetSavePoint rep0) ops) = (OK, rep3)"
  shows "write_batch rep3 = write_batch rep0" and "entry_index rep3 = entry_index rep0"
    and "obsolete_offsets rep3 = []" and "overwrite_key rep3 = overwrite_key rep0"
    and "allow_dup_merge rep3 = allow_dup_merge rep0"
proof -
  let ?rep2 = "apply_ops (SetSavePoint rep0) ops"
  from apply_ops_inv[OF SetSavePoint_batch_inv[OF inv], of ops] obtain ss where
    ow: "overwrite_key ?rep2 = overwrite_key rep0"
    and ad: "allow_dup_merge ?rep2 = allow_dup_merge rep0"
    and sp: "wb_save_points (write_batch ?rep2) =
          (GetDataSize (write_batch rep0), wb_count (write_batch rep0)) # wb_save_points (write_batch rep0)"
    and mb: "wb_max_bytes (write_batch ?rep2) = wb_max_bytes (write_batch rep0)"
    and recs: "wb_records (write_batch ?rep2) = wb_records (write_batch rep0) @ ss"
    by (auto simp: SetSavePoint_def wb_SetSavePoint_def)
  have wr: "wb_RollbackToSavePoint (write_batch ?rep2) = (OK, write_batch rep0)"
    by (rule wb_rollback_restores[OF sp recs mb])
  let ?r = "?rep2\<lparr>write_batch := write_batch rep0\<rparr>"
  obtain s' rep' where rb: "ReBuildIndex ?r = (s', rep')" by (cases "ReBuildIndex ?r") auto
  from ok wr rb have s': "s' = OK" and r3: "rep3 = rep'\<lparr>obsolete_offsets := []\<rparr>"
    by (simp_all add: RollbackToSavePoint_def)
  from inv have cnt: "wb_count (write_batch ?r) =
       length (filter (\<lambda>r. indexed_tag (rec_tag r)) (wb_records (write_batch ?r)))"
    and j: "entry_index rep0 = replay (overwrite_key rep0) (located kHeader (wb_records (write_batch rep0)))"
    by (simp_all add: batch_inv_def)
  from ReBuildIndex_char[OF rb[unfolded s'] cnt]
  have 1: "entry_index rep' = replay (overwrite_key rep0) (located kHeader (wb_records (write_batch rep0)))"
    and 2: "write_batch rep' = write_batch rep0" and 3: "overwrite_key rep' = overwrite_key rep0"
    and 4: "allow_dup_merge rep' = allow_dup_merge rep0"
    by (simp_all add: ow ad)
  show "write_batch rep3 = write_batch rep0" by (simp add: r3 2)
  show "entry_index rep3 = entry_index rep0" by (simp add: r3 1 j[symmetric])
  show "obsolete_offsets rep3 = []" by (simp add: r3)
  show "overwrite_key rep3 = overwrite_key rep0" by (simp add: r3 3)
  show "allow_dup_merge rep3 = allow_dup_merge rep0" by (simp add: r3 4)
qed

lemma built_batch_inv: "batch_inv (apply_ops (empty_batch ow ad mb) ops)"
  using apply_ops_inv[OF empty_batch_inv] by blast

lemma reindex_write_batch:
  "write_batch (case UpdateExistingEntryWithCfId rep cf k of
             (True, rep2) \<Rightarrow> rep2
           | (False, rep2) \<Rightarrow> AddNewEntry rep2 cf') = write_batch rep"
  by (simp add: UpdateExistingEntryWithCfId_def AddNewEntry_def Let_def)

lemma rebuild_loop_status:
  assumes "\<forall>lr\<in>set lrs. rec_tag (snd lr) \<noteq> kTypeRangeDeletion"
  shows "fst (rebuild_loop lrs found rep) = OK \<and>
         fst (snd (rebuild_loop lrs found rep)) =
           found + length (filter (\<lambda>lr. indexed_tag (rec_tag (snd lr))) lrs) \<and>
         write_batch (snd (snd (rebuild_loop lrs found rep))) = write_batch rep"
  using assms
proof (induction lrs arbitrary: found rep)
  case Nil
  then show ?case by simp
next
  case (Cons lr lrs)
  obtain off r where lr: "lr = (off, r)" by (cases lr)
  from Cons.prems have t: "rec_tag r \<noteq> kTypeRangeDeletion"
    and rest: "\<forall>lr\<in>set lrs. rec_tag (snd lr) \<noteq> kTypeRangeDeletion" by (simp_all add: lr)
  note ih = Cons.IH[OF rest]
  show ?case
  proof (cases "rec_tag r \<in> {kTypeValue, kTypeDeletion, kTypeSingleDeletion, kTypeMerge}")
    case True
    then have i: "indexed_tag (rec_tag r)" by (auto simp: indexed_tag_def)
    from True i show ?thesis
      by (simp add: lr Let_def ih reindex_write_batch)
  next
    case False
    with t have i: "\<not> indexed_tag (rec_tag r)" by (auto simp: indexed_tag_def)
    from False t have b: "rec_tag r \<in> {kTypeLogData, kTypeBeginPrepareXID, kTypeEndPrepareXID,
                              kTypeCommitXID, kTypeRollbackXID, kTypeNoop}"
      by (cases "rec_tag r") auto
    from False b i show ?thesis
      by (simp add: lr Let_def ih)
  qed
qed

lemma ReBuildIndex_succeeds:
  assumes cnt: "wb_count (write_batch rep) =
       length (filter (\<lambda>r. indexed_tag (rec_tag r)) (wb_records (write_batch rep)))"
    and nr: "\<forall>r\<in>set (wb_records (write_batch rep)). rec_tag r \<noteq> kTypeRangeDeletion"
  shows "fst (ReBuildIndex rep) = OK"
proof (cases "wb_count (write_batch rep) = 0")
  case True
  then show ?thesis by (simp add: ReBuildIndex_def Let_def ClearIndex_def)
next
  case False
  let ?c = "ClearIndex rep"
  let ?l = "located kHeader (wb_records (write_batch rep))"
  have wbc: "write_batch ?c = write_batch rep" by (simp add: ClearIndex_def)
  have "\<forall>lr\<in>set ?l. rec_tag (snd lr) \<noteq> kTypeRangeDeletion"
    using nr located_snd[of kHeader "wb_records (write_batch rep)"]
    by (metis image_eqI set_map)
  note st = rebuild_loop_status[OF this, of 0 ?c]
  have "length (filter (\<lambda>lr. indexed_tag (rec_tag (snd lr))) ?l) =
        length (filter (\<lambda>r. indexed_tag (rec_tag r)) (map snd ?l))"
    by (simp add: filter_map comp_def)
  then have n: "length (filter (\<lambda>lr. indexed_tag (rec_tag (snd lr))) ?l) = wb_count (write_batch rep)"
    by (simp add: located_snd cnt)
  obtain s found rep1 where run: "rebuild_loop ?l 0 ?c = (s, found, rep1)"
    by (cases "rebuild_loop ?l 0 ?c") auto
  with st n have "s = OK" "found = wb_count (write_batch rep)" "write_batch rep1 = write_batch rep"
    by (simp_all add: wbc)
  with run False show ?thesis
    by (simp add: ReBuildIndex_def Let_def GetFirstOffset_def wbc)
qed

lemma Rollback_succeeds:
  assumes inv: "batch_inv rep0"
    and nr: "\<forall>r\<in>set (wb_records (write_batch rep0)). rec_tag r \<noteq> kTypeRangeDeletion"
  shows "fst (RollbackToSavePoint (apply_ops (SetSavePoint rep0) ops)) = OK"
proof -
  let ?rep2 = "apply_ops (SetSavePoint rep0) ops"
  from apply_ops_inv[OF SetSavePoint_batch_inv[OF inv], of ops] obtain ss where
    sp: "wb_save_points (write_batch ?rep2) =
          (GetDataSize (write_batch rep0), wb_count (write_batch rep0)) # wb_save_points (write_batch rep0)"
    and mb: "wb_max_bytes (write_batch ?rep2) = wb_max_bytes (write_batch rep0)"
    and recs: "wb_records (write_batch ?rep2) = wb_records (write_batch rep0) @ ss"
    by (auto simp: SetSavePoint_def wb_SetSavePoint_def)
  have wr: "wb_RollbackToSavePoint (write_batch ?rep2) = (OK, write_batch rep0)"
    by (rule wb_rollback_restores[OF sp recs mb])
  let ?r = "?rep2\<lparr>write_batch := write_batch rep0\<rparr>"
  from inv have cnt: "wb_count (write_batch ?r) =
       length (filter (\<lambda>r. indexed_tag (rec_tag r)) (wb_records (write_batch ?r)))"
    by (simp add: batch_inv_def)
  from nr have nr': "\<forall>r\<in>set (wb_records (write_batch ?r)). rec_tag r \<noteq> kTypeRangeDeletion" by simp
  from ReBuildIndex_succeeds[OF cnt nr'] wr show ?thesis
    by (auto simp: RollbackToSavePoint_def split: prod.splits)
qed

lemma Rollback_range_deletion:
  "fst (RollbackToSavePoint (SetSavePoint (snd (DeleteRange (empty_batch True False 0) 0 ''a'' ''b'')))) =
     Corruption"
  by code_simp

lemma latest_in_snoc:
  "latest_in (recs @ [r]) cf k =
     (if indexed_tag (rec_tag r) \<and> rec_cf r = cf \<and> rec_key r = k then Some r else latest_in recs cf k)"
  by (simp add: latest_in_def)

lemma latest_in_Some:
  assumes "latest_in recs cf k = Some r"
  shows "indexed_tag (rec_tag r) \<and> rec_cf r = cf \<and> rec_key r = k \<and> r \<in> set recs"
proof -
  let ?P = "\<lambda>r. indexed_tag (rec_tag r) \<and> rec_cf r = cf \<and> rec_key r = k"
  from assms obtain rs where "filter ?P (rev recs) = r # rs"
    by (auto simp: latest_in_def split: list.splits)
  then have "r \<in> set (filter ?P (rev recs))" by simp
  then show ?thesis by simp
qed

lemma rec_at_snoc:
  "map_of (located kHeader (recs @ [r])) off =
     (if off = kHeader + sum_list (map EncodedSize recs) then Some r
      else map_of (located kHeader recs) off)"
  using record_at_append[of "\<lparr>wb_records = recs @ [r], wb_count = 0, wb_save_points = [], wb_max_bytes = 0\<rparr>"
      "\<lparr>wb_records = recs, wb_count = 0, wb_save_points = [], wb_max_bytes = 0\<rparr>" r off]
  by (simp add: record_at_def GetDataSize_def)

lemma rec_at_bound:
  "map_of (located kHeader recs) off = Some r \<Longrightarrow> off < kHeader + sum_list (map EncodedSize recs)"
  using record_at_bound[of "\<lparr>wb_records = recs, wb_count = 0, wb_save_points = [], wb_max_bytes = 0\<rparr>" off r]
  by (simp add: record_at_def GetDataSize_def)

lemma replay_located_snoc:
  "replay ow (located off (recs @ [r])) =
     replay_step ow (replay ow (located off recs)) (off + sum_list (map EncodedSize recs), r)"
  by (simp add: located_append replay_snoc)

lemma replay_sorted: "sorted (map ekey (replay ow (located off recs)))"
proof (induction recs rule: rev_induct)
  case Nil
  then show ?case by (simp add: replay_def)
next
  case (snoc r recs)
  show ?case
    unfolding replay_located_snoc replay_step_def
    using snoc idx_update_sorted[OF snoc] by simp
qed

lemma replay_distinct: "distinct (map ekey (replay True (located off recs)))"
proof (induction recs rule: rev_induct)
  case Nil
  then show ?case by (simp add: replay_def)
next
  case (snoc r recs)
  show ?case
    unfolding replay_located_snoc replay_step_def
    using snoc idx_update_distinct[OF replay_sorted snoc] by simp
qed

lemma idx_update_set_ow:
  assumes s: "sorted (map ekey idx)" and d: "distinct (map ekey idx)"
  shows "set (idx_update True idx off cf k) =
     {e \<in> set idx. ekey e \<noteq> (cf, k)} \<union> {\<lparr>offset = off, column_family = cf, ie_key = k\<rparr>}"
proof -
  let ?p = "index_Seek idx (KeyInCf cf k)"
  let ?new = "\<lparr>offset = off, column_family = cf, ie_key = k\<rparr>"
  show ?thesis
  proof (cases "?p < length idx \<and> ekey (idx ! ?p) = (cf, k)")
    case True
    then have p: "?p < length idx" and ek: "ekey (idx ! ?p) = (cf, k)" by simp_all
    from ek have n: "(idx ! ?p)\<lparr>offset := off\<rparr> = ?new" by (simp add: ekey_def)
    from d have di: "distinct idx" and inj: "inj_on ekey (set idx)" by (simp_all add: distinct_map)
    have "{e \<in> set idx. ekey e \<noteq> (cf, k)} = set idx - {idx ! ?p}"
    proof (intro set_eqI iffI)
      fix e assume "e \<in> {e \<in> set idx. ekey e \<noteq> (cf, k)}"
      with ek show "e \<in> set idx - {idx ! ?p}" by auto
    next
      fix e assume a: "e \<in> set idx - {idx ! ?p}"
      then have "e \<in> set idx" "e \<noteq> idx ! ?p" by simp_all
      moreover have "idx ! ?p \<in> set idx" using p by simp
      ultimately have "ekey e \<noteq> ekey (idx ! ?p)" using inj by (meson inj_onD)
      with a ek show "e \<in> {e \<in> set idx. ekey e \<noteq> (cf, k)}" by simp
    qed
    moreover have "set (idx[?p := ?new]) = insert ?new (set idx - {idx ! ?p})"
      by (rule set_update_distinct[OF di p])
    ultimately show ?thesis using True n by (simp add: idx_update_def Let_def)
  next
    case False
    with index_Seek_finds[OF s, of cf k] have "\<forall>e\<in>set idx. ekey e \<noteq> (cf, k)" by blast
    then have "{e \<in> set idx. ekey e \<noteq> (cf, k)} = set idx" by blast
    with False show ?thesis by (auto simp: idx_update_def Let_def set_index_Insert)
  qed
qed

lemma replay_latest:
  "(\<forall>e\<in>set (replay True (located kHeader recs)).
      \<exists>r. map_of (located kHeader recs) (offset e) = Some r \<and>
          latest_in recs (column_family e) (ie_key e) = Some r) \<and>
   (\<forall>cf k. latest_in recs cf k \<noteq> None \<longrightarrow>
      (\<exists>e\<in>set (replay True (located kHeader recs)). ekey e = (cf, k)))"
proof (induction recs rule: rev_induct)
  case Nil
  then show ?case by (simp add: replay_def latest_in_def)
next
  case (snoc r recs)
  let ?idx = "replay True (located kHeader recs)"
  let ?sz = "kHeader + sum_list (map EncodedSize recs)"
  from snoc have ih1: "\<And>e. e \<in> set ?idx \<Longrightarrow>
      \<exists>r. map_of (located kHeader recs) (offset e) = Some r \<and>
          latest_in recs (column_family e) (ie_key e) = Some r"
    and ih2: "\<And>cf k. latest_in recs cf k \<noteq> None \<Longrightarrow> \<exists>e\<in>set ?idx. ekey e = (cf, k)"
    by blast+
  have old: "\<exists>r'. map_of (located kHeader (recs @ [r])) (offset e) = Some r' \<and>
          latest_in (recs @ [r]) (column_family e) (ie_key e) = Some r'"
    if e: "e \<in> set ?idx" and ne: "indexed_tag (rec_tag r) \<longrightarrow> ekey e \<noteq> (rec_cf r, rec_key r)" for e
  proof -
    from ih1[OF e] obtain r' where r': "map_of (located kHeader recs) (offset e) = Some r'"
      "latest_in recs (column_family e) (ie_key e) = Some r'" by blast
    from rec_at_bound[OF r'(1)] have "offset e \<noteq> ?sz" by simp
    then have 1: "map_of (located kHeader (recs @ [r])) (offset e) = Some r'"
      by (simp add: rec_at_snoc r'(1))
    from ne have 2: "latest_in (recs @ [r]) (column_family e) (ie_key e) = Some r'"
      by (auto simp: latest_in_snoc r'(2) ekey_def)
    from 1 2 show ?thesis by blast
  qed
  show ?case
  proof (cases "indexed_tag (rec_tag r)")
    case False
    then have i: "replay True (located kHeader (recs @ [r])) = ?idx"
      by (simp add: replay_located_snoc replay_step_def)
    from False have l: "latest_in (recs @ [r]) cf k = latest_in recs cf k" for cf k
      by (simp add: latest_in_snoc)
    show ?thesis unfolding i using old False ih2 by (simp add: l)
  next
    case True
    let ?new = "\<lparr>offset = ?sz, column_family = rec_cf r, ie_key = rec_key r\<rparr>"
    have i: "set (replay True (located kHeader (recs @ [r]))) =
        {e \<in> set ?idx. ekey e \<noteq> (rec_cf r, rec_key r)} \<union> {?new}"
      using True idx_update_set_ow[OF replay_sorted replay_distinct, of kHeader recs ?sz "rec_cf r" "rec_key r"]
      by (simp add: replay_located_snoc replay_step_def)
    have n: "map_of (located kHeader (recs @ [r])) (offset ?new) = Some r \<and>
          latest_in (recs @ [r]) (column_family ?new) (ie_key ?new) = Some r"
      using True by (simp add: rec_at_snoc latest_in_snoc)
    have 1: "\<exists>r'. map_of (located kHeader (recs @ [r])) (offset e) = Some r' \<and>
          latest_in (recs @ [r]) (column_family e) (ie_key e) = Some r'"
      if "e \<in> set (replay True (located kHeader (recs @ [r])))" for e
    proof -
      from that[unfolded i] consider "e \<in> set ?idx" "ekey e \<noteq> (rec_cf r, rec_key r)" | "e = ?new"
        by blast
      then show ?thesis
      proof cases
        case 1 then show ?thesis by (intro old) simp_all
      next
        case 2 with n show ?thesis by blast
      qed
    qed
    have 2: "\<exists>e\<in>set (replay True (located kHeader (recs @ [r]))). ekey e = (cf, k)"
      if l: "latest_in (recs @ [r]) cf k \<noteq> None" for cf k
    proof (cases "(cf, k) = (rec_cf r, rec_key r)")
      case True
      then have "?new \<in> set (replay True (located kHeader (recs @ [r]))) \<and> ekey ?new = (cf, k)"
        unfolding i by (simp add: ekey_def)
      then show ?thesis by blast
    next
      case False
      with l have "latest_in recs cf k \<noteq> None" by (auto simp: latest_in_snoc split: if_splits)
      from ih2[OF this] obtain e where "e \<in> set ?idx" "ekey e = (cf, k)" by blast
      with False have "e \<in> set (replay True (located kHeader (recs @ [r]))) \<and> ekey e = (cf, k)"
        unfolding i by auto
      then show ?thesis by blast
    qed
    from 1 2 show ?thesis by blast
  qed
qed

lemma index_latest:
  assumes "batch_inv rep" "overwrite_key rep"
  shows "e \<in> set (entry_index rep) \<Longrightarrow>
      \<exists>r. record_at (write_batch rep) (offset e) = Some r \<and>
          latest rep (column_family e) (ie_key e) = Some r"
    and "latest rep cf k \<noteq> None \<Longrightarrow> \<exists>e\<in>set (entry_index rep). ekey e = (cf, k)"
proof -
  from assms have j: "entry_index rep = replay True (located kHeader (wb_records (write_batch rep)))"
    by (simp add: batch_inv_def)
  note rl = replay_latest[of "wb_records (write_batch rep)", folded j]
  show "e \<in> set (entry_index rep) \<Longrightarrow>
      \<exists>r. record_at (write_batch rep) (offset e) = Some r \<and>
          latest rep (column_family e) (ie_key e) = Some r"
    using rl by (simp add: record_at_def latest_def)
  show "latest rep cf k \<noteq> None \<Longrightarrow> \<exists>e\<in>set (entry_index rep). ekey e = (cf, k)"
    using rl by (simp add: latest_def)
qed

lemma sorted_distinct_strict:
  fixes xs :: "'a::linorder list"
  shows "sorted xs \<Longrightarrow> distinct xs \<Longrightarrow> sorted_wrt (<) xs"
  by (induction xs) (auto simp: less_le)

lemma batch_invD:
  assumes "batch_inv rep"
  shows "entries_consistent rep" and "index_sorted rep"
  using assms unfolding batch_inv_def by blast+

lemma column_keys:
  assumes "entries_consistent rep"
  shows "map entry_key (column_entries rep cf) =
     map ie_key (filter (\<lambda>e. column_family e = cf) (entry_index rep))"
  unfolding column_entries_def map_map
  by (rule map_cong[OF refl]) (simp add: decode_entry_key[OF assms])

lemma column_entries_sorted:
  assumes inv: "batch_inv rep" and ow: "overwrite_key rep"
  shows "sorted_wrt (<) (map entry_key (column_entries rep cf))"
proof -
  let ?idx = "entry_index rep"
  let ?f = "filter (\<lambda>e. column_family e = cf) ?idx"
  note c = batch_invD(1)[OF inv]
  from batch_invD(2)[OF inv] ow have "sorted (map ekey ?idx)" "distinct (map ekey ?idx)"
    unfolding index_sorted_def by blast+
  then have "sorted_wrt (<) (map ekey ?idx)" by (intro sorted_distinct_strict)
  then have "sorted_wrt (\<lambda>x y. ekey x < ekey y) ?idx" by (simp add: sorted_wrt_map)
  then have "sorted_wrt (\<lambda>x y. ekey x < ekey y) ?f" by (rule sorted_wrt_filter)
  then have "sorted_wrt (\<lambda>x y. ie_key x < ie_key y) ?f"
    by (rule sorted_wrt_mono_rel[rotated]) (auto simp: ekey_def less_prod_def)
  then show ?thesis by (simp add: column_keys[OF c] sorted_wrt_map)
qed

lemma decode_entry_of:
  "record_at (write_batch rep) (offset e) = Some r \<Longrightarrow> decode_entry rep e = entry_of r"
  by (simp add: decode_entry_def GetEntryFromDataOffset_def entry_of_def)

lemma column_entries_set:
  assumes inv: "batch_inv rep" and ow: "overwrite_key rep"
  shows "set (column_entries rep cf) = {entry_of r |r k. latest rep cf k = Some r}"
proof (intro set_eqI iffI)
  fix w assume "w \<in> set (column_entries rep cf)"
  then obtain e where e: "e \<in> set (entry_index rep)" "column_family e = cf" "w = decode_entry rep e"
    by (auto simp: column_entries_def)
  from index_latest(1)[OF inv ow e(1)] obtain r where
    r: "record_at (write_batch rep) (offset e) = Some r" "latest rep (column_family e) (ie_key e) = Some r"
    by blast
  from decode_entry_of[OF r(1)] e r(2) show "w \<in> {entry_of r |r k. latest rep cf k = Some r}" by auto
next
  fix w assume "w \<in> {entry_of r |r k. latest rep cf k = Some r}"
  then obtain r k where w: "w = entry_of r" "latest rep cf k = Some r" by blast
  from index_latest(2)[OF inv ow, of cf k] w(2) obtain e where
    e: "e \<in> set (entry_index rep)" "ekey e = (cf, k)" by auto
  from index_latest(1)[OF inv ow e(1)] e(2) w(2) have "record_at (write_batch rep) (offset e) = Some r"
    by (auto simp: ekey_def)
  from decode_entry_of[OF this] e w(1) show "w \<in> set (column_entries rep cf)"
    by (auto simp: column_entries_def ekey_def intro!: image_eqI[where x = e])
qed

lemma latest_key: "latest rep cf k = Some r \<Longrightarrow> rec_key r = k"
  unfolding latest_def by (drule latest_in_Some) simp

lemma is_delete_entry_of: "is_delete (entry_of r) = tombstone r"
  by (cases "rec_tag r") (simp_all add: is_delete_def entry_of_def write_type_def tombstone_def)

lemma column_entries_keys:
  assumes inv: "batch_inv rep" and ow: "overwrite_key rep"
  shows "entry_key ` set (column_entries rep cf) = {k. latest rep cf k \<noteq> None}"
    and "{entry_key e |e. e \<in> set (column_entries rep cf) \<and> is_delete e} =
         {k. \<exists>r. latest rep cf k = Some r \<and> tombstone r}"
proof -
  note s = column_entries_set[OF inv ow, of cf]
  have k: "entry_key (entry_of r) = k" if "latest rep cf k = Some r" for r k
    using latest_key[OF that] by (simp add: entry_of_def)
  show "entry_key ` set (column_entries rep cf) = {k. latest rep cf k \<noteq> None}"
    unfolding s using k by force
  show "{entry_key e |e. e \<in> set (column_entries rep cf) \<and> is_delete e} =
         {k. \<exists>r. latest rep cf k = Some r \<and> tombstone r}"
    unfolding s using k by (force simp: is_delete_entry_of)
qed


section \<open>Claims about the merged iterator over a batch\<close>

text \<open>
  C1 (forward scan of the merged iterator).  Take a batch in a state that the mutations keep
  (\<open>batch_inv\<close>), a base sequence strictly increasing in the key, and the merged iterator that
  \<^verbatim>\<open>NewIteratorWithBase\<close> returns for a column family, which exists only in overwrite mode.
  A full forward scan, \<^verbatim>\<open>SeekToFirst\<close> followed by \<^verbatim>\<open>Next\<close> while \<^verbatim>\<open>Valid\<close>, then returns;
  it visits the keys in increasing order, each once; the visited keys are exactly the keys of
  the base and the keys with an indexed record of the column family in the batch, minus the
  keys whose latest such record is a \<^verbatim>\<open>Delete\<close> or \<^verbatim>\<open>SingleDelete\<close>; a visited key that the
  batch holds is reported with the value of its latest record, any other visited key with
  the base's.
\<close>

theorem C1_forward_scan_complete:
  assumes "batch_inv rep" and "sorted_wrt (<) (map fst base)"
    and "NewIteratorWithBase rep cf base pos = Some it"
  shows "\<exists>out. ForwardScan it = Some out \<and> sorted_wrt (<) (map fst out) \<and>
     set (map fst out) =
       (fst ` set base \<union> {k. latest rep cf k \<noteq> None}) -
       {k. \<exists>r. latest rep cf k = Some r \<and> tombstone r} \<and>
     (\<forall>(k, v)\<in>set out.
        case latest rep cf k of Some r \<Rightarrow> v = rec_value r | None \<Rightarrow> (k, v) \<in> set base)"
proof -
  from assms(3) have ow: "overwrite_key rep" and b: "base_items it = base"
    and d: "delta_items it = column_entries rep cf"
    by (auto simp: NewIteratorWithBase_def split: if_splits)
  note inv = assms(1)
  have sb: "sorted_wrt (<) (map fst (base_items it))" using assms(2) by (simp add: b)
  have sd: "sorted_wrt (<) (map entry_key (delta_items it))"
    unfolding d by (rule column_entries_sorted[OF inv ow])
  from merged_scan_complete[OF sb sd] obtain out where out: "ForwardScan it = Some out"
    "sorted_wrt (<) (map fst out)"
    "set (map fst out) =
       (fst ` set (base_items it) \<union> entry_key ` set (delta_items it)) -
       {entry_key e |e. e \<in> set (delta_items it) \<and> is_delete e}"
    "\<forall>(k, v)\<in>set out.
        (\<forall>e\<in>set (delta_items it). entry_key e = k \<longrightarrow> v = entry_value e) \<and>
        (k \<notin> entry_key ` set (delta_items it) \<longrightarrow> (k, v) \<in> set (base_items it))"
    by blast
  note ks = column_entries_keys[OF inv ow, of cf]
  have 1: "set (map fst out) =
       (fst ` set base \<union> {k. latest rep cf k \<noteq> None}) -
       {k. \<exists>r. latest rep cf k = Some r \<and> tombstone r}"
    using out(3) unfolding b d ks .
  have 2: "case latest rep cf k of Some r \<Rightarrow> v = rec_value r | None \<Rightarrow> (k, v) \<in> set base"
    if kv: "(k, v) \<in> set out" for k v
  proof (cases "latest rep cf k")
    case None
    then have "k \<notin> entry_key ` set (column_entries rep cf)" unfolding ks by simp
    with out(4) kv b d None show ?thesis by auto
  next
    case (Some r)
    then have m: "entry_of r \<in> set (column_entries rep cf)"
      unfolding column_entries_set[OF inv ow] by blast
    from latest_key[OF Some] have "entry_key (entry_of r) = k" by (simp add: entry_of_def)
    with out(4) kv m d have "v = entry_value (entry_of r)" by auto
    with Some show ?thesis by (simp add: entry_of_def)
  qed
  from out(1,2) 1 2 show ?thesis by blast
qed

theorem C1_forward_scan_complete_witness:
  "batch_inv masking_batch \<and> sorted_wrt (<) (map fst masking_base) \<and>
   NewIteratorWithBase masking_batch 0 masking_base 3 = Some tombstone_masking \<and>
   ForwardScan tombstone_masking = Some [(''a'', ''X''), (''c'', ''Z2'')] \<and>
   (\<exists>out. ForwardScan tombstone_masking = Some out \<and>
      set (map fst out) =
        (fst ` set masking_base \<union> {k. latest masking_batch 0 k \<noteq> None}) -
        {k. \<exists>r. latest masking_batch 0 k = Some r \<and> tombstone r})"
proof -
  have h1: "batch_inv masking_batch" by code_simp
  have h2: "sorted_wrt (<) (map fst masking_base)" by code_simp
  have h3: "NewIteratorWithBase masking_batch 0 masking_base 3 = Some tombstone_masking"
    by code_simp
  have e: "ForwardScan tombstone_masking = Some [(''a'', ''X''), (''c'', ''Z2'')]"
    by code_simp
  from C1_forward_scan_complete[OF h1 h2 h3]
  have "\<exists>out. ForwardScan tombstone_masking = Some out \<and>
      set (map fst out) =
        (fst ` set masking_base \<union> {k. latest masking_batch 0 k \<noteq> None}) -
        {k. \<exists>r. latest masking_batch 0 k = Some r \<and> tombstone r}"
    by blast
  with h1 h2 h3 e show ?thesis by blast
qed

section \<open>Claims about the merged iterator\<close>

text \<open>
  C2 (state invariant).  After \<^verbatim>\<open>SeekToFirst\<close>, \<^verbatim>\<open>SeekToLast\<close>, \<^verbatim>\<open>Seek\<close>, \<^verbatim>\<open>SeekForPrev\<close>,
  \<^verbatim>\<open>Next\<close> and \<^verbatim>\<open>Prev\<close>, from any state: when both iterators are valid, in forward direction
  the current side is the base iff the delta key is greater than the base key, with the
  inequalities flipped in reverse direction; and \<^verbatim>\<open>equal_keys_\<close> holds iff both iterators are
  valid and their keys are equal.
\<close>

theorem C2_invariant_maintained:
  "invariant (SeekToFirst it) \<and> invariant (SeekToLast it) \<and> invariant (Seek k it) \<and>
   invariant (SeekForPrev k it) \<and> invariant (Next it) \<and> invariant (Prev it)"
proof (intro conjI)
  show "invariant (SeekToFirst it)" unfolding SeekToFirst_def by (rule UpdateCurrent_invariant)
  show "invariant (SeekToLast it)" unfolding SeekToLast_def by (rule UpdateCurrent_invariant)
  show "invariant (Seek k it)" unfolding Seek_def by (rule UpdateCurrent_invariant)
  show "invariant (SeekForPrev k it)" unfolding SeekForPrev_def by (rule UpdateCurrent_invariant)
  show "invariant (Next it)" unfolding Next_def Advance_def Let_def by (rule UpdateCurrent_invariant)
  show "invariant (Prev it)" unfolding Prev_def Advance_def Let_def by (rule UpdateCurrent_invariant)
qed

theorem C2_invariant_maintained_witness:
  "BaseValid (Next (SeekToFirst direction_flip)) \<and> DeltaValid (Next (SeekToFirst direction_flip)) \<and>
   forward (Next (SeekToFirst direction_flip)) \<and>
   \<not> current_at_base (Next (SeekToFirst direction_flip)) \<and>
   BaseValid (Prev (SeekToLast direction_flip)) \<and> DeltaValid (Prev (SeekToLast direction_flip)) \<and>
   \<not> forward (Prev (SeekToLast direction_flip)) \<and>
   \<not> current_at_base (Prev (SeekToLast direction_flip)) \<and>
   invariant (Next (SeekToFirst direction_flip)) \<and> invariant (Prev (SeekToLast direction_flip))"
proof -
  have g: "BaseValid (Next (SeekToFirst direction_flip)) \<and>
      DeltaValid (Next (SeekToFirst direction_flip)) \<and>
      forward (Next (SeekToFirst direction_flip)) \<and>
      \<not> current_at_base (Next (SeekToFirst direction_flip)) \<and>
      BaseValid (Prev (SeekToLast direction_flip)) \<and> DeltaValid (Prev (SeekToLast direction_flip)) \<and>
      \<not> forward (Prev (SeekToLast direction_flip)) \<and>
      \<not> current_at_base (Prev (SeekToLast direction_flip))"
    by code_simp
  from C2_invariant_maintained[of "SeekToFirst direction_flip"]
  have i1: "invariant (Next (SeekToFirst direction_flip))" by blast
  from C2_invariant_maintained[of "SeekToLast direction_flip"]
  have i2: "invariant (Prev (SeekToLast direction_flip))" by blast
  from g i1 i2 show ?thesis by blast
qed

text \<open>
  C3 (direction reversal).  As stated the claim fails at the last position: there \<^verbatim>\<open>Next\<close>
  leaves the iterator invalid, and the following \<^verbatim>\<open>Prev\<close> is a call on an invalid iterator,
  which the code answers by setting the sticky status to \<^verbatim>\<open>NotSupported\<close>; it does not return
  to the position.  With base \<open>[k, n]\<close> and batch \<open>put(m)\<close>: \<^verbatim>\<open>Seek("n")\<close> is at \<open>n\<close>, and
  \<^verbatim>\<open>Next\<close> then \<^verbatim>\<open>Prev\<close> ends at \<open>k\<close>.
\<close>

theorem C3_last_position_counterexample:
  "Valid (Seek ''n'' direction_flip) \<and> key (Seek ''n'' direction_flip) = ''n'' \<and>
   \<not> Valid (Next (Seek ''n'' direction_flip)) \<and>
   key (Prev (Next (Seek ''n'' direction_flip))) = ''k'' \<and>
   key (Prev (Next (Seek ''n'' direction_flip))) \<noteq> key (Seek ''n'' direction_flip) \<and>
   status (Prev (Next (Seek ''n'' direction_flip))) = NotSupported"
  by code_simp

text \<open>
  C3, amended.  Over strictly increasing base and batch sequences: if the iterator is valid
  after \<^verbatim>\<open>Seek(k)\<close> and still valid after \<^verbatim>\<open>Next\<close>, then \<^verbatim>\<open>Prev\<close> brings it back to a valid
  position with the same key and value; and if it is valid after \<^verbatim>\<open>SeekForPrev(k)\<close> and still
  valid after \<^verbatim>\<open>Prev\<close>, then \<^verbatim>\<open>Next\<close> brings it back likewise.
\<close>

theorem C3_direction_reversal:
  assumes "sorted_wrt (<) (map fst (base_items it))"
    and "sorted_wrt (<) (map entry_key (delta_items it))"
  shows "(Valid (Seek k it) \<and> Valid (Next (Seek k it)) \<longrightarrow>
            Valid (Prev (Next (Seek k it))) \<and>
            key (Prev (Next (Seek k it))) = key (Seek k it) \<and>
            val (Prev (Next (Seek k it))) = val (Seek k it)) \<and>
         (Valid (SeekForPrev k it) \<and> Valid (Prev (SeekForPrev k it)) \<longrightarrow>
            Valid (Next (Prev (SeekForPrev k it))) \<and>
            key (Next (Prev (SeekForPrev k it))) = key (SeekForPrev k it) \<and>
            val (Next (Prev (SeekForPrev k it))) = val (SeekForPrev k it))"
proof -
  have wf: "wf_items it" using assms by (simp add: wf_items_def bkeys_def dkeys_def)
  show ?thesis using seek_next_prev[OF wf] seek_for_prev_prev_next[OF wf] by blast
qed

theorem C3_direction_reversal_witness:
  "sorted_wrt (<) (map fst (base_items direction_flip)) \<and>
   sorted_wrt (<) (map entry_key (delta_items direction_flip)) \<and>
   Valid (Seek ''m'' direction_flip) \<and> Valid (Next (Seek ''m'' direction_flip)) \<and>
   Valid (SeekForPrev ''m'' direction_flip) \<and> Valid (Prev (SeekForPrev ''m'' direction_flip)) \<and>
   key (Next (Seek ''m'' direction_flip)) = ''n'' \<and>
   key (Prev (Next (Seek ''m'' direction_flip))) = ''m'' \<and>
   val (Prev (Next (Seek ''m'' direction_flip))) = ''v'' \<and>
   key (Prev (SeekForPrev ''m'' direction_flip)) = ''k'' \<and>
   key (Next (Prev (SeekForPrev ''m'' direction_flip))) = ''m'' \<and>
   val (Next (Prev (SeekForPrev ''m'' direction_flip))) = ''v''"
proof -
  have h1: "sorted_wrt (<) (map fst (base_items direction_flip))"
    by code_simp
  have h2: "sorted_wrt (<) (map entry_key (delta_items direction_flip))"
    by code_simp
  have v: "Valid (Seek ''m'' direction_flip) \<and> Valid (Next (Seek ''m'' direction_flip)) \<and>
      Valid (SeekForPrev ''m'' direction_flip) \<and> Valid (Prev (SeekForPrev ''m'' direction_flip)) \<and>
      key (Seek ''m'' direction_flip) = ''m'' \<and> val (Seek ''m'' direction_flip) = ''v'' \<and>
      key (SeekForPrev ''m'' direction_flip) = ''m'' \<and> val (SeekForPrev ''m'' direction_flip) = ''v'' \<and>
      key (Next (Seek ''m'' direction_flip)) = ''n'' \<and>
      key (Prev (SeekForPrev ''m'' direction_flip)) = ''k''"
    by code_simp
  from C3_direction_reversal[OF h1 h2, of "''m''"] v
  have "key (Prev (Next (Seek ''m'' direction_flip))) = key (Seek ''m'' direction_flip) \<and>
        val (Prev (Next (Seek ''m'' direction_flip))) = val (Seek ''m'' direction_flip) \<and>
        key (Next (Prev (SeekForPrev ''m'' direction_flip))) = key (SeekForPrev ''m'' direction_flip) \<and>
        val (Next (Prev (SeekForPrev ''m'' direction_flip))) = val (SeekForPrev ''m'' direction_flip)"
    by blast
  with h1 h2 v show ?thesis by metis
qed

section \<open>Claims about the batch\<close>

text \<open>
  C8 (constructing the merged iterator).  \<^verbatim>\<open>NewIteratorWithBase\<close> returns the null handle
  when the batch is not in overwrite mode; the source reports the unsupported construction by
  that null handle alone (it returns an \<^verbatim>\<open>Iterator*\<close>, after an \<^verbatim>\<open>assert(false)\<close> that is
  fatal in a debug build).  In overwrite mode it returns a merged iterator over the given base
  and the batch's view of the column, in the constructor's initial state.
\<close>

theorem C8_new_iterator_with_base:
  "(\<not> overwrite_key rep \<longrightarrow> NewIteratorWithBase rep cf base_seq base_at = None) \<and>
   (overwrite_key rep \<longrightarrow>
      (\<exists>it. NewIteratorWithBase rep cf base_seq base_at = Some it \<and>
            base_items it = base_seq \<and> delta_items it = column_entries rep cf \<and>
            forward it \<and> current_at_base it \<and> \<not> equal_keys it \<and> status it = OK))"
  by (simp add: NewIteratorWithBase_def)

theorem C8_new_iterator_with_base_witness:
  "\<not> overwrite_key plain_batch \<and> NewIteratorWithBase plain_batch 0 [(''a'', ''X'')] 0 = None \<and>
   overwrite_key basic_overwrite \<and>
   (\<exists>it. NewIteratorWithBase basic_overwrite 0 [(''a'', ''X'')] 0 = Some it \<and>
      delta_items it = column_entries basic_overwrite 0)"
proof -
  have a: "\<not> overwrite_key plain_batch" by code_simp
  have b: "overwrite_key basic_overwrite" by code_simp
  from C8_new_iterator_with_base[of plain_batch 0 "[(''a'', ''X'')]" 0] a
  have c: "NewIteratorWithBase plain_batch 0 [(''a'', ''X'')] 0 = None" by blast
  from C8_new_iterator_with_base[of basic_overwrite 0 "[(''a'', ''X'')]" 0] b
  have d: "\<exists>it. NewIteratorWithBase basic_overwrite 0 [(''a'', ''X'')] 0 = Some it \<and>
      delta_items it = column_entries basic_overwrite 0" by blast
  from a b c d show ?thesis by blast
qed

text \<open>
  C9 (reading the front of the obsolete offsets).  The walk of \<^verbatim>\<open>Collapse\<close> reads
  \<^verbatim>\<open>obsolete_offsets.front()\<close> for every record of the log, without testing for emptiness.
  After \<open>put(a,1); put(a,2); put(b,3)\<close> in overwrite mode the list is \<open>[12]\<close>; the first
  record consumes it, and the read for the second record is on the empty vector.
\<close>

theorem C9_front_of_empty_vector_reached:
  "obsolete_offsets basic_overwrite = [12] \<and>
   map fst (located (GetFirstOffset (write_batch basic_overwrite))
              (wb_records (write_batch basic_overwrite))) = [12, 17, 22] \<and>
   Collapse basic_overwrite = Inl FrontOfEmptyVector"
  by code_simp

text \<open>
  C4 (collapse).  With no obsolete offsets \<^verbatim>\<open>Collapse\<close> returns false and leaves the batch
  as it is.  On the scenario of the claim the list of obsolete offsets has length 1, and the
  walk reaches the read of the front of the emptied vector before it has copied the two
  surviving records: the source does not define a result there.
\<close>

theorem C4_collapse_basic_overwrite:
  "GetFromBatch basic_overwrite 0 ''a'' = (OK, Some ''2'') \<and>
   GetFromBatch basic_overwrite 0 ''b'' = (OK, Some ''3'') \<and>
   length (obsolete_offsets basic_overwrite) = 1 \<and>
   Collapse basic_overwrite = Inl FrontOfEmptyVector"
  by code_simp

lemma Collapse_nothing_obsolete: "obsolete_offsets rep = [] \<Longrightarrow> Collapse rep = Inr (False, rep)"
  by (simp add: Collapse_def)

text \<open>
  Two runs of \<^verbatim>\<open>Collapse\<close> that the source does define, on a batch reused after
  \<^verbatim>\<open>Clear\<close> (which leaves the obsolete offsets of the cleared batch in place).  In the first a
  record whose offset is listed survives, because an earlier listed offset matches no record;
  in the second a surviving \<^verbatim>\<open>DeleteRange\<close> record is not counted.
\<close>

lemma Collapse_keeps_listed_record:
  "obsolete_offsets stale_after_clear = [12, 17, 19] \<and>
   record_at (write_batch stale_after_clear) 19 =
     Some \<lparr>rec_tag = kTypeValue, rec_cf = 0, rec_key = ''c'', rec_value = ''1''\<rparr> \<and>
   Collapse stale_after_clear = Inr (True, collapsed stale_after_clear) \<and>
   wb_records (write_batch (collapsed stale_after_clear)) =
     [\<lparr>rec_tag = kTypeValue, rec_cf = 0, rec_key = ''c'', rec_value = ''1''\<rparr>,
      \<lparr>rec_tag = kTypeValue, rec_cf = 0, rec_key = ''c'', rec_value = ''2''\<rparr>] \<and>
   wb_count (write_batch (collapsed stale_after_clear)) = 2"
  by code_simp

lemma Collapse_miscounts_delete_range:
  "Collapse range_after_clear = Inr (True, collapsed range_after_clear) \<and>
   wb_records (write_batch (collapsed range_after_clear)) =
     [\<lparr>rec_tag = kTypeValue, rec_cf = 0, rec_key = ''a'', rec_value = ''2''\<rparr>,
      \<lparr>rec_tag = kTypeRangeDeletion, rec_cf = 0, rec_key = ''b'', rec_value = ''c''\<rparr>] \<and>
   wb_count (write_batch (collapsed range_after_clear)) = 1"
  by code_simp

text \<open>
  C5 (lookups across collapse).  \<^verbatim>\<open>Collapse\<close> rewrites the log and leaves the index as it
  was, so every index entry keeps its offset into the old layout.  On the batch
  \<open>put(a,1); put(a,2); clear(); put(a,1); put(a,2); put(b,3)\<close> the lookup of \<open>a\<close> finds
  \<open>2\<close> before \<^verbatim>\<open>Collapse\<close>; afterwards the entry of \<open>a\<close> still holds offset 17, where
  the rewritten log has the record \<open>put(b,3)\<close>, and the lookup finds nothing.
\<close>

theorem C5_collapse_changes_lookup:
  "GetFromBatch reused_after_clear 0 ''a'' = (OK, Some ''2'') \<and>
   Collapse reused_after_clear = Inr (True, collapsed reused_after_clear) \<and>
   entry_index (collapsed reused_after_clear) = entry_index reused_after_clear \<and>
   entry_index reused_after_clear =
     [\<lparr>offset = 17, column_family = 0, ie_key = ''a''\<rparr>,
      \<lparr>offset = 22, column_family = 0, ie_key = ''b''\<rparr>] \<and>
   GetEntryFromDataOffset (write_batch (collapsed reused_after_clear)) 17 =
     Some \<lparr>entry_type = kPutRecord, entry_key = ''b'', entry_value = ''3''\<rparr> \<and>
   GetFromBatch (collapsed reused_after_clear) 0 ''a'' = (NotFound, None)"
  by code_simp



text \<open>
  C7 (duplicate merge).  On a batch whose index entries agree with the log and are in key
  order, \<^verbatim>\<open>Merge\<close> answers as follows.  When the log refuses the record the log's status is
  returned.  Otherwise the status is \<^verbatim>\<open>NotSupported\<close> exactly when the batch is in overwrite
  mode, \<^verbatim>\<open>allow_dup_merge\<close> is unset and the column family already has an index entry for
  the key; on a fresh key, without overwrite mode, or with the flag set, it is \<^verbatim>\<open>OK\<close>.  The
  obsolete offsets grow exactly when the record was appended in overwrite mode to a key with
  an entry.
\<close>

theorem C7_duplicate_merge_rejected:
  assumes "entries_consistent rep" and "index_sorted rep"
  shows "fst (Merge rep cf k v) =
      (if fst (wb_Merge (write_batch rep) cf k v) \<noteq> OK then fst (wb_Merge (write_batch rep) cf k v)
       else if overwrite_key rep \<and> \<not> allow_dup_merge rep \<and> has_live_entry rep cf k
            then NotSupported else OK) \<and>
     (length (obsolete_offsets rep) < length (obsolete_offsets (snd (Merge rep cf k v))) \<longleftrightarrow>
        fst (wb_Merge (write_batch rep) cf k v) = OK \<and> overwrite_key rep \<and> has_live_entry rep cf k)"
  unfolding Merge_char[OF assms(1)] wb_Merge_fits updates_entry_live[OF assms(2)]
  by simp

theorem C7_duplicate_merge_rejected_witness:
  "entries_consistent merge_once \<and> index_sorted merge_once \<and>
   overwrite_key merge_once \<and> \<not> allow_dup_merge merge_once \<and>
   has_live_entry merge_once 0 ''k'' \<and> \<not> has_live_entry merge_once 0 ''j'' \<and>
   fst (Merge merge_once 0 ''k'' ''b'') = NotSupported \<and>
   fst (Merge merge_once 0 ''j'' ''b'') = OK"
proof -
  have c: "entries_consistent merge_once" by code_simp
  have s: "index_sorted merge_once" by code_simp
  have f: "overwrite_key merge_once \<and> \<not> allow_dup_merge merge_once \<and>
     has_live_entry merge_once 0 ''k'' \<and> \<not> has_live_entry merge_once 0 ''j'' \<and>
     fst (wb_Merge (write_batch merge_once) 0 ''k'' ''b'') = OK \<and>
     fst (wb_Merge (write_batch merge_once) 0 ''j'' ''b'') = OK"
    by code_simp
  from C7_duplicate_merge_rejected[OF c s, of 0 "''k''" "''b''"] f
  have 1: "fst (Merge merge_once 0 ''k'' ''b'') = NotSupported" by simp
  from C7_duplicate_merge_rejected[OF c s, of 0 "''j''" "''b''"] f
  have 2: "fst (Merge merge_once 0 ''j'' ''b'') = OK" by simp
  from c s f 1 2 show ?thesis by blast
qed

text \<open>
  C6 (rollback rebuild).  Take a batch in a state that the mutations keep (\<open>batch_inv\<close>), set
  a save point, and apply any sequence of mutations.  If \<^verbatim>\<open>RollbackToSavePoint\<close> then returns
  \<^verbatim>\<open>OK\<close>, the log is the log at the save point, the index is the replay of that log from the
  empty index and equals the index at the save point, the obsolete offsets are empty, and
  every point lookup and every column's entry sequence is as it was at the save point.
\<close>

theorem C6_rollback_restores_save_point:
  assumes "batch_inv rep0"
    and "RollbackToSavePoint (apply_ops (SetSavePoint rep0) ops) = (OK, rep3)"
  shows "write_batch rep3 = write_batch rep0 \<and>
     entry_index rep3 = replay (overwrite_key rep3) (located kHeader (wb_records (write_batch rep3))) \<and>
     entry_index rep3 = entry_index rep0 \<and> obsolete_offsets rep3 = [] \<and>
     (\<forall>cf k. GetFromBatch rep3 cf k = GetFromBatch rep0 cf k) \<and>
     (\<forall>cf. column_entries rep3 cf = column_entries rep0 cf)"
proof -
  note r = Rollback_char[OF assms]
  from assms(1) have j: "entry_index rep0 =
      replay (overwrite_key rep0) (located kHeader (wb_records (write_batch rep0)))"
    by (simp add: batch_inv_def)
  have 1: "entry_index rep3 = replay (overwrite_key rep3) (located kHeader (wb_records (write_batch rep3)))"
    unfolding r(1) r(2) r(4) by (rule j)
  have 2: "GetFromBatch rep3 cf k = GetFromBatch rep0 cf k" for cf k
    by (rule GetFromBatch_cong[OF r(1) r(2)])
  have 3: "column_entries rep3 cf = column_entries rep0 cf" for cf
    by (rule column_entries_cong[OF r(1) r(2)])
  from r(1,2,3) 1 2 3 show ?thesis by blast
qed

theorem C6_rollback_restores_save_point_witness:
  "batch_inv (snd (Put overwrite_batch 0 ''x'' ''1'')) \<and>
   RollbackToSavePoint (apply_ops (SetSavePoint (snd (Put overwrite_batch 0 ''x'' ''1'')))
      [OpPut 0 ''y'' ''2'', OpDelete 0 ''x'']) = rollback_rebuild \<and>
   fst rollback_rebuild = OK \<and>
   GetFromBatch (snd rollback_rebuild) 0 ''x'' = (OK, Some ''1'') \<and>
   GetFromBatch (snd rollback_rebuild) 0 ''y'' = (NotFound, None) \<and>
   obsolete_offsets (snd rollback_rebuild) = []"
proof -
  let ?rep0 = "snd (Put overwrite_batch 0 ''x'' ''1'')"
  have inv: "batch_inv ?rep0" by code_simp
  have e: "RollbackToSavePoint (apply_ops (SetSavePoint ?rep0) [OpPut 0 ''y'' ''2'', OpDelete 0 ''x''])
       = rollback_rebuild" by code_simp
  have s: "fst rollback_rebuild = OK" by code_simp
  from e s have ok: "RollbackToSavePoint (apply_ops (SetSavePoint ?rep0) [OpPut 0 ''y'' ''2'', OpDelete 0 ''x''])
       = (OK, snd rollback_rebuild)" by (simp add: prod_eq_iff)
  have g: "GetFromBatch ?rep0 0 ''x'' = (OK, Some ''1'') \<and> GetFromBatch ?rep0 0 ''y'' = (NotFound, None)"
    by code_simp
  from C6_rollback_restores_save_point[OF inv ok] g
  have "GetFromBatch (snd rollback_rebuild) 0 ''x'' = (OK, Some ''1'') \<and>
        GetFromBatch (snd rollback_rebuild) 0 ''y'' = (NotFound, None) \<and>
        obsolete_offsets (snd rollback_rebuild) = []" by simp
  with inv e s show ?thesis by blast
qed


end
